theory Spec2Isabelle
  imports Main "HOL-Library.Sublist" "HOL-Library.Char_ord" "HOL-Library.List_Lexorder"
begin

section \<open>Text of a contract\<close>

text \<open>
  The pipeline of \<^verbatim>\<open>contract.py\<close> works on Python \<^verbatim>\<open>str\<close> values. They are modelled
  as \<^typ>\<open>string\<close>, one \<^typ>\<open>char\<close> per code point, so the texts covered are those of
  code points 0 to 255 (Latin-1). On that range the character classes below are the ones
  Python uses: \<^verbatim>\<open>str.strip()\<close> and the regular expression class \<^verbatim>\<open>\s\<close> share
  the whitespace set, \<^verbatim>\<open>\d\<close> is the ten ASCII digits, and lower-casing maps
  \<^verbatim>\<open>A-Z\<close> and the accented capitals to their small letters.
\<close>

abbreviation LF :: char where "LF \<equiv> CHR 0x0A"
abbreviation CR :: char where "CR \<equiv> CHR 0x0D"
abbreviation TAB :: char where "TAB \<equiv> CHR 0x09"
abbreviation SP :: char where "SP \<equiv> CHR 0x20"

definition isspace :: "char \<Rightarrow> bool" where
  "isspace c =
     (let n = (of_char c :: nat)
      in (9 \<le> n \<and> n \<le> 13) \<or> (28 \<le> n \<and> n \<le> 32) \<or> n = 133 \<or> n = 160)"

definition isdecimal :: "char \<Rightarrow> bool" where
  "isdecimal c = (let n = (of_char c :: nat) in 48 \<le> n \<and> n \<le> 57)"

definition lower_char :: "char \<Rightarrow> char" where
  "lower_char c =
     (let n = (of_char c :: nat)
      in if (65 \<le> n \<and> n \<le> 90) \<or> (192 \<le> n \<and> n \<le> 222 \<and> n \<noteq> 215)
         then char_of (n + 32) else c)"

definition str_lower :: "string \<Rightarrow> string" where
  "str_lower s = map lower_char s"

definition strip :: "string \<Rightarrow> string" where
  "strip s = rev (dropWhile isspace (rev (dropWhile isspace s)))"

subsection \<open>\<^verbatim>\<open>str.replace\<close>\<close>

function replace_nonempty :: "string \<Rightarrow> string \<Rightarrow> string \<Rightarrow> string" where
  "replace_nonempty old new [] = []"
| "replace_nonempty old new (c # cs) =
     (if old \<noteq> [] \<and> prefix old (c # cs)
      then new @ replace_nonempty old new (drop (length old) (c # cs))
      else c # replace_nonempty old new cs)"
  by pat_completeness auto
termination
  by (relation "measure (\<lambda>(old, new, s). length s)") auto

definition str_replace :: "string \<Rightarrow> string \<Rightarrow> string \<Rightarrow> string" where
  "str_replace old new s =
     (if old = [] then new @ concat (map (\<lambda>c. c # new) s)
      else replace_nonempty old new s)"

subsection \<open>The regular expressions of the program\<close>

text \<open>
  A matcher tries its pattern at the start of the text and returns the text left after
  the match. The patterns of the program are sequences of literals and of greedy
  repetitions of a character class; each repetition is followed by an item that cannot
  begin with a character of the repeated class (or by nothing), so the longest run is the
  only run with which the rest can match, and no backtracking is modelled. None of the
  patterns looks behind its starting point, so a match at a position depends on the text
  from that position on only.
\<close>

type_synonym matcher = "string \<Rightarrow> string option"

fun lit_ci :: "string \<Rightarrow> matcher" where
  "lit_ci [] s = Some s"
| "lit_ci (p # ps) [] = None"
| "lit_ci (p # ps) (c # cs) =
     (if lower_char c = lower_char p then lit_ci ps cs else None)"

definition at_least :: "nat \<Rightarrow> (char \<Rightarrow> bool) \<Rightarrow> matcher" where
  "at_least n P s =
     (if n \<le> length (takeWhile P s) then Some (dropWhile P s) else None)"

definition at_most :: "nat \<Rightarrow> (char \<Rightarrow> bool) \<Rightarrow> matcher" where
  "at_most n P s = Some (drop (length (takeWhile P (take n s))) s)"

definition seq_m :: "matcher \<Rightarrow> matcher \<Rightarrow> matcher" where
  "seq_m m1 m2 s = (case m1 s of None \<Rightarrow> None | Some r \<Rightarrow> m2 r)"

text \<open>
  \<^verbatim>\<open>re.sub\<close> scans from the left; where the pattern matches it writes the replacement
  and goes on after the match, elsewhere it copies one character. The patterns here
  match no empty string.
\<close>

function re_sub :: "matcher \<Rightarrow> string \<Rightarrow> string \<Rightarrow> string" where
  "re_sub m repl [] = []"
| "re_sub m repl (c # cs) =
     (case m (c # cs) of
        None \<Rightarrow> c # re_sub m repl cs
      | Some rest \<Rightarrow>
          if length rest \<le> length cs then repl @ re_sub m repl rest
          else c # re_sub m repl cs)"
  by pat_completeness auto
termination
  by (relation "measure (\<lambda>(m, repl, s). length s)") auto

text \<open>\<^verbatim>\<open>re.search\<close> returns the text of the leftmost match.\<close>

fun re_search :: "matcher \<Rightarrow> string \<Rightarrow> string option" where
  "re_search m [] = (case m [] of None \<Rightarrow> None | Some rest \<Rightarrow> Some [])"
| "re_search m (c # cs) =
     (case m (c # cs) of
        None \<Rightarrow> re_search m cs
      | Some rest \<Rightarrow> Some (take (length (c # cs) - length rest) (c # cs)))"

section \<open>Text normalizer\<close>

definition hspace :: "char \<Rightarrow> bool" where
  "hspace c = (c = SP \<or> c = TAB)"

definition is_LF :: "char \<Rightarrow> bool" where
  "is_LF c = (c = LF)"

definition page_footer :: matcher where
  "page_footer =
     seq_m (lit_ci ''Page'')
       (seq_m (at_least 1 isspace)
         (seq_m (at_least 1 isdecimal)
           (seq_m (at_least 1 isspace)
             (seq_m (lit_ci ''of'')
               (seq_m (at_least 1 isspace) (at_least 1 isdecimal))))))"

definition unify_newlines :: "string \<Rightarrow> string" where
  "unify_newlines txt = str_replace [CR] [LF] (str_replace [CR, LF] [LF] txt)"

definition collapse_hspace :: "string \<Rightarrow> string" where
  "collapse_hspace txt = re_sub (at_least 1 hspace) [SP] txt"

definition collapse_newlines :: "string \<Rightarrow> string" where
  "collapse_newlines txt = re_sub (at_least 3 is_LF) [LF, LF] txt"

definition remove_footers :: "string \<Rightarrow> string" where
  "remove_footers txt = re_sub page_footer [] txt"

definition normalize_text :: "string \<Rightarrow> string" where
  "normalize_text txt =
     strip (remove_footers (collapse_newlines (collapse_hspace (unify_newlines txt))))"

section \<open>Clause locator\<close>

definition any_char :: "char \<Rightarrow> bool" where
  "any_char c = (isspace c \<or> \<not> isspace c)"

definition anchor_window :: "string \<Rightarrow> matcher" where
  "anchor_window kw = seq_m (lit_ci kw) (at_most 1800 any_char)"

definition patterns :: "string \<Rightarrow> matcher option" where
  "patterns =
     map_of
       [(''termination'', anchor_window ''termination''),
        (''confidentiality'', anchor_window ''confidential''),
        (''liability'', anchor_window ''liabilit'')]"

definition find_relevant_section :: "string \<Rightarrow> string \<Rightarrow> string" where
  "find_relevant_section text clause_type =
     (case patterns (str_lower clause_type) of
        None \<Rightarrow> take 2000 text
      | Some pattern \<Rightarrow>
          (case re_search pattern text of
             None \<Rightarrow> take 2000 text
           | Some group1 \<Rightarrow> group1))"

text \<open>
  The keyword of a clause type occurs at position \<open>i\<close> of a text when the text holds it
  there in any mix of upper and lower case. The properties of the locator are stated
  with this reading of the search, next to the regular expressions run above.
\<close>

definition occurs_at :: "string \<Rightarrow> string \<Rightarrow> nat \<Rightarrow> bool" where
  "occurs_at kw text i =
     (i + length kw \<le> length text \<and>
      str_lower (take (length kw) (drop i text)) = str_lower kw)"

section \<open>LLM gateway\<close>

text \<open>
  The inference service, the PDF reader and the directory listing are outside the
  program. They are the fields of an environment, each a function of the state of the
  outside world \<^typ>\<open>'w\<close> that returns the new state; what raises returns
  \<^term>\<open>Inl\<close> of the exception, a value of \<open>exn\<close>: an instance of Python's
  \<^verbatim>\<open>Exception\<close>, the class the two handlers of the program catch. The program's own effects (the request it sends, the
  lines it prints, the rows it hands to the JSON and CSV writers) are appended to a trace;
  the writers themselves are outside the program.

  The two system prompts and the two prompt templates are kept as the constructors of
  \<open>prompt\<close>, the templates with the strings they are filled with.
\<close>

datatype exn = IndexError | AttributeError | External string

datatype prompt =
    CLAUSE_SYSTEM_PROMPT
  | SUMMARY_SYSTEM_PROMPT
  | Clause_user_prompt string string
  | Summary_user_prompt string

record request =
  model :: string
  messages :: "(string \<times> prompt) list"
  temperature :: int
  max_tokens :: int

type_synonym response = "string option list"

type_synonym page = "exn + string option"

record pdf_path =
  name :: string
  stem :: string

type_synonym row = "(string \<times> string) list"

datatype event =
    Chat_request request
  | Print_groq_error exn
  | Print_processing_error string exn
  | Json_dump string "row list"
  | To_csv string "row list"
  | Print_done nat string

record 'w env =
  chat_completions_create :: "request \<Rightarrow> 'w \<Rightarrow> (exn + response) \<times> 'w"
  pdfplumber_open :: "pdf_path \<Rightarrow> 'w \<Rightarrow> (exn + page list) \<times> 'w"
  glob_pdf :: "string \<Rightarrow> 'w \<Rightarrow> pdf_path list"

record 'w state =
  world :: 'w
  trace :: "event list"

definition emit :: "event \<Rightarrow> 'w state \<Rightarrow> 'w state" where
  "emit ev st = st\<lparr>trace := trace st @ [ev]\<rparr>"

definition chat_request :: "prompt \<Rightarrow> prompt \<Rightarrow> int \<Rightarrow> request" where
  "chat_request system_prompt user_prompt max_tok =
     \<lparr>model = ''llama-3.1-8b-instant'',
      messages = [(''system'', system_prompt), (''user'', user_prompt)],
      temperature = 0,
      max_tokens = max_tok\<rparr>"

text \<open>\<^verbatim>\<open>resp.choices[0].message.content.strip()\<close>: a response is the list of the
  contents of its choices, \<^term>\<open>None\<close> for a null content.\<close>

definition first_content :: "response \<Rightarrow> exn + string" where
  "first_content choices =
     (case choices of
        [] \<Rightarrow> Inl IndexError
      | content # _ \<Rightarrow>
          (case content of None \<Rightarrow> Inl AttributeError | Some c \<Rightarrow> Inr (strip c)))"

text \<open>The body of the \<^verbatim>\<open>try\<close> of \<^verbatim>\<open>call_groq\<close>, then the function with its handler.\<close>

definition call_groq_try ::
  "'w env \<Rightarrow> prompt \<Rightarrow> prompt \<Rightarrow> int \<Rightarrow> 'w state \<Rightarrow> (exn + string) \<times> 'w state" where
  "call_groq_try env system_prompt user_prompt max_tok st =
     (let req = chat_request system_prompt user_prompt max_tok;
          (resp, w) = chat_completions_create env req (world st);
          st1 = emit (Chat_request req) (st\<lparr>world := w\<rparr>)
      in (case resp of
            Inl e \<Rightarrow> (Inl e, st1)
          | Inr choices \<Rightarrow> (first_content choices, st1)))"

definition call_groq ::
  "'w env \<Rightarrow> prompt \<Rightarrow> prompt \<Rightarrow> int \<Rightarrow> 'w state \<Rightarrow> string \<times> 'w state" where
  "call_groq env system_prompt user_prompt max_tok st =
     (case call_groq_try env system_prompt user_prompt max_tok st of
        (Inl e, st1) \<Rightarrow> ('''', emit (Print_groq_error e) st1)
      | (Inr content, st1) \<Rightarrow> (content, st1))"

section \<open>Clause extractor and summarizer\<close>

definition extract_clause ::
  "'w env \<Rightarrow> string \<Rightarrow> string \<Rightarrow> 'w state \<Rightarrow> string \<times> 'w state" where
  "extract_clause env full_text clause_type st =
     (let filtered = find_relevant_section full_text clause_type
      in call_groq env CLAUSE_SYSTEM_PROMPT (Clause_user_prompt clause_type filtered) 800 st)"

definition summarize_contract :: "'w env \<Rightarrow> string \<Rightarrow> 'w state \<Rightarrow> string \<times> 'w state" where
  "summarize_contract env full_text st =
     (let short = take 5000 full_text
      in call_groq env SUMMARY_SYSTEM_PROMPT (Summary_user_prompt short) 400 st)"

section \<open>Document pipeline\<close>

fun extract_pages :: "page list \<Rightarrow> string list \<Rightarrow> exn + string list" where
  "extract_pages [] text_parts = Inr text_parts"
| "extract_pages (page # pages) text_parts =
     (case page of
        Inl e \<Rightarrow> Inl e
      | Inr t \<Rightarrow>
          extract_pages pages (text_parts @ [case t of None \<Rightarrow> '''' | Some s \<Rightarrow> s]))"

fun str_join :: "string \<Rightarrow> string list \<Rightarrow> string" where
  "str_join sep [] = []"
| "str_join sep [p] = p"
| "str_join sep (p # q # ps) = p @ sep @ str_join sep (q # ps)"

definition extract_text_from_pdf ::
  "'w env \<Rightarrow> pdf_path \<Rightarrow> 'w state \<Rightarrow> (exn + string) \<times> 'w state" where
  "extract_text_from_pdf env path st =
     (case pdfplumber_open env path (world st) of
        (Inl e, w) \<Rightarrow> (Inl e, st\<lparr>world := w\<rparr>)
      | (Inr pages, w) \<Rightarrow>
          (case extract_pages pages [] of
             Inl e \<Rightarrow> (Inl e, st\<lparr>world := w\<rparr>)
           | Inr text_parts \<Rightarrow> (Inr (str_join [LF, LF] text_parts), st\<lparr>world := w\<rparr>)))"

definition process_contract ::
  "'w env \<Rightarrow> pdf_path \<Rightarrow> 'w state \<Rightarrow> (exn + row) \<times> 'w state" where
  "process_contract env path st =
     (let contract_id = stem path
      in case extract_text_from_pdf env path st of
           (Inl e, st0) \<Rightarrow> (Inl e, st0)
         | (Inr raw, st0) \<Rightarrow>
             (let full_text = normalize_text raw;
                  (termination, st1) = extract_clause env full_text ''termination'' st0;
                  (confidentiality, st2) = extract_clause env full_text ''confidentiality'' st1;
                  (liability, st3) = extract_clause env full_text ''liability'' st2;
                  (summary, st4) = summarize_contract env full_text st3
              in (Inr [(''contract_id'', contract_id),
                       (''summary'', summary),
                       (''termination'', termination),
                       (''confidentiality'', confidentiality),
                       (''liability'', liability)], st4)))"

text \<open>The loop of \<^verbatim>\<open>main\<close> over the sorted paths, with \<open>rows\<close> as it grows.\<close>

fun main_loop ::
  "'w env \<Rightarrow> pdf_path list \<Rightarrow> row list \<Rightarrow> 'w state \<Rightarrow> row list \<times> 'w state" where
  "main_loop env [] rows st = (rows, st)"
| "main_loop env (pdf # pdfs) rows st =
     (case process_contract env pdf st of
        (Inr r, st1) \<Rightarrow> main_loop env pdfs (rows @ [r]) st1
      | (Inl e, st1) \<Rightarrow>
          main_loop env pdfs rows (emit (Print_processing_error (name pdf) e) st1))"

text \<open>
  The paths of \<^verbatim>\<open>input_dir.glob("*.pdf")\<close> lie in one directory, so \<^verbatim>\<open>sorted\<close>
  orders them by file name. \<^verbatim>\<open>if out_csv:\<close> is false for \<^verbatim>\<open>None\<close> and for the
  empty string.
\<close>

definition main :: "'w env \<Rightarrow> string \<Rightarrow> string \<Rightarrow> string option \<Rightarrow> 'w state \<Rightarrow> 'w state" where
  "main env input_dir out_json out_csv st =
     (let pdfs = sort_key name (glob_pdf env input_dir (world st));
          (rows, st1) = main_loop env pdfs [] st;
          st2 = emit (Json_dump out_json rows) st1;
          st3 = (case out_csv of
                   None \<Rightarrow> st2
                 | Some p \<Rightarrow> if p = [] then st2 else emit (To_csv p rows) st2)
      in emit (Print_done (length rows) out_json) st3)"

text \<open>
  The outcome of each document of a batch, in the order of the batch: the value
  \<^term>\<open>process_contract\<close> returns in the state the loop has reached.
\<close>

fun outcomes :: "'w env \<Rightarrow> pdf_path list \<Rightarrow> 'w state \<Rightarrow> (exn + row) list" where
  "outcomes env [] st = []"
| "outcomes env (pdf # pdfs) st =
     (case process_contract env pdf st of
        (Inr r, st1) \<Rightarrow> Inr r # outcomes env pdfs st1
      | (Inl e, st1) \<Rightarrow>
          Inl e # outcomes env pdfs (emit (Print_processing_error (name pdf) e) st1))"

subsection \<open>Two environments for examples\<close>

text \<open>
  A directory of three files listed out of order, the second of which cannot be read;
  the world has no state. In the first environment the service answers every request,
  in the second every request raises.
\<close>

definition three_pdfs :: "pdf_path list" where
  "three_pdfs =
     [\<lparr>name = ''c.pdf'', stem = ''c''\<rparr>,
      \<lparr>name = ''b.pdf'', stem = ''b''\<rparr>,
      \<lparr>name = ''a.pdf'', stem = ''a''\<rparr>]"

definition read_pdf :: "pdf_path \<Rightarrow> unit \<Rightarrow> (exn + page list) \<times> unit" where
  "read_pdf path w =
     (if name path = ''b.pdf'' then (Inl (External ''No /Root object''), w)
      else (Inr [Inr (Some ''Termination: 30 days notice.''), Inr None], w))"

definition env_up :: "unit env" where
  "env_up =
     \<lparr>chat_completions_create = (\<lambda>req w. (Inr [Some '' 30 days notice. ''], w)),
      pdfplumber_open = read_pdf,
      glob_pdf = (\<lambda>dir w. three_pdfs)\<rparr>"

definition env_down :: "unit env" where
  "env_down =
     \<lparr>chat_completions_create = (\<lambda>req w. (Inl (External ''rate limit''), w)),
      pdfplumber_open = read_pdf,
      glob_pdf = (\<lambda>dir w. three_pdfs)\<rparr>"

definition start :: "unit state" where
  "start = \<lparr>world = (), trace = []\<rparr>"

section \<open>Properties of the clause locator\<close>

subsection \<open>The anchor search\<close>

lemma lit_ci_Some:
  "lit_ci kw s = Some r \<longleftrightarrow>
     length kw \<le> length s \<and> str_lower (take (length kw) s) = str_lower kw \<and> r = drop (length kw) s"
  by (induction kw s rule: lit_ci.induct) (auto simp: str_lower_def)

lemma lit_ci_occurs: "lit_ci kw s = (if occurs_at kw s 0 then Some (drop (length kw) s) else None)"
proof (cases "lit_ci kw s")
  case None
  then have "\<forall>r. lit_ci kw s \<noteq> Some r" by simp
  then have "\<not> occurs_at kw s 0" unfolding lit_ci_Some occurs_at_def by auto
  with None show ?thesis by simp
next
  case (Some r)
  then show ?thesis by (auto simp: lit_ci_Some occurs_at_def)
qed

lemma takeWhile_any_char: "takeWhile any_char s = s"
  by (induction s) (auto simp: any_char_def)

lemma at_most_any: "at_most n any_char s = Some (drop n s)"
  by (simp add: at_most_def takeWhile_any_char min_def)

lemma anchor_window_eq:
  "anchor_window kw s =
     (if occurs_at kw s 0 then Some (drop (length kw + 1800) s) else None)"
  unfolding anchor_window_def seq_m_def lit_ci_occurs at_most_any
  by (simp add: add.commute)

lemma matched_text:
  "take (length s - length (drop n s)) s = take n s"
  by (cases "n \<le> length s") auto

lemma occurs_at_Cons: "occurs_at kw (c # cs) (Suc i) = occurs_at kw cs i"
  by (simp add: occurs_at_def)

lemma re_search_first:
  assumes m: "\<And>s. m s = (if occurs_at kw s 0 then Some (drop (length kw + n) s) else None)"
  shows "occurs_at kw doc i \<Longrightarrow> \<forall>j<i. \<not> occurs_at kw doc j \<Longrightarrow>
   re_search m doc = Some (take (length kw + n) (drop i doc))"
proof (induction doc arbitrary: i)
  case Nil
  from Nil.prems(1) have "i + length kw \<le> 0" unfolding occurs_at_def by simp
  then have "kw = []" and "i = 0" by simp_all
  with Nil.prems(1) show ?case by (simp add: m [of "[]"])
next
  case (Cons c cs)
  show ?case
  proof (cases i)
    case 0
    with Cons.prems(1) show ?thesis
      using matched_text [of "c # cs" "length kw + n"]
      by (simp add: m [of "c # cs"] del: take_Suc_Cons drop_Suc_Cons)
  next
    case (Suc k)
    with Cons.prems have no0: "\<not> occurs_at kw (c # cs) 0" by blast
    from Suc Cons.prems have k: "occurs_at kw cs k" by (simp add: occurs_at_Cons)
    from Suc Cons.prems(2) have "\<forall>j<k. \<not> occurs_at kw cs j"
      using occurs_at_Cons by (metis Suc_less_eq)
    with k Cons.IH have "re_search m cs = Some (take (length kw + n) (drop k cs))"
      by blast
    with no0 Suc show ?thesis by (simp add: m [of "c # cs"])
  qed
qed

lemma re_search_none:
  assumes m: "\<And>s. m s = (if occurs_at kw s 0 then Some (drop (length kw + n) s) else None)"
  shows "\<forall>i. \<not> occurs_at kw doc i \<Longrightarrow> re_search m doc = None"
proof (induction doc)
  case Nil
  then show ?case by (simp add: m [of "[]"])
next
  case (Cons c cs)
  then have "\<forall>i. \<not> occurs_at kw cs i" using occurs_at_Cons by blast
  with Cons show ?case by (simp add: m [of "c # cs"])
qed

lemma re_search_anchor_cases:
  "(\<exists>i. occurs_at kw doc i \<and> (\<forall>j<i. \<not> occurs_at kw doc j) \<and>
        re_search (anchor_window kw) doc = Some (take (length kw + 1800) (drop i doc)))
   \<or> ((\<forall>i. \<not> occurs_at kw doc i) \<and> re_search (anchor_window kw) doc = None)"
proof (cases "\<exists>i. occurs_at kw doc i")
  case True
  define i where "i = (LEAST i. occurs_at kw doc i)"
  from True have a: "occurs_at kw doc i" unfolding i_def by (metis LeastI)
  have b: "\<forall>j<i. \<not> occurs_at kw doc j" unfolding i_def using not_less_Least by blast
  from re_search_first [of "anchor_window kw", OF anchor_window_eq a b] a b show ?thesis by blast
next
  case False
  with re_search_none [of "anchor_window kw", OF anchor_window_eq] show ?thesis by blast
qed

lemma lower_char_idem:
  "lower_char (lower_char c) = lower_char c"
proof -
  have "(of_char c :: nat) < 256" by simp
  then show ?thesis
    by (auto simp: lower_char_def Let_def)
qed

lemma str_lower_idem: "str_lower (str_lower s) = str_lower s"
  by (simp add: str_lower_def lower_char_idem)

lemma patterns_eq:
  "patterns ty =
    (if ty = ''termination'' then Some (anchor_window ''termination'')
     else if ty = ''confidentiality'' then Some (anchor_window ''confidential'')
     else if ty = ''liability'' then Some (anchor_window ''liabilit'') else None)"
  by (simp add: patterns_def)

lemma frs_supported:
  assumes "(str_lower clause_type, kw) \<in> {(''termination'', ''termination''), (''confidentiality'', ''confidential''), (''liability'', ''liabilit'')}"
  shows "find_relevant_section doc clause_type =
     (case re_search (anchor_window kw) doc of None \<Rightarrow> take 2000 doc | Some g \<Rightarrow> g)"
  using assms by (auto simp: find_relevant_section_def patterns_eq)

lemma frs_unsupported:
  assumes "str_lower clause_type \<notin> {''termination'', ''confidentiality'', ''liability''}"
  shows "find_relevant_section doc clause_type = take 2000 doc"
  using assms by (simp add: find_relevant_section_def patterns_eq)

subsection \<open>Claims about the locator\<close>

text \<open>
  C2. For a clause type that lower-cases to termination, confidentiality or liability,
  with the keyword stem \<open>termination\<close>, \<open>confidential\<close> or \<open>liabilit\<close>: when the stem
  occurs in the text in any case, and \<open>i\<close> is its first position, the locator returns
  the text from \<open>i\<close> on, cut after the keyword and 1800 further characters; when the stem
  occurs nowhere, it returns the first 2000 characters of the text.
\<close>

theorem locate_first_anchor:
  assumes "(str_lower clause_type, kw) \<in> {(''termination'', ''termination''), (''confidentiality'', ''confidential''), (''liability'', ''liabilit'')}"
  shows "(occurs_at kw doc i \<and> (\<forall>j<i. \<not> occurs_at kw doc j) \<longrightarrow>
            find_relevant_section doc clause_type = take (length kw + 1800) (drop i doc))
       \<and> ((\<forall>i. \<not> occurs_at kw doc i) \<longrightarrow>
            find_relevant_section doc clause_type = take 2000 doc)"
  using re_search_first [of "anchor_window kw", OF anchor_window_eq, of doc i]
        re_search_none [of "anchor_window kw", OF anchor_window_eq, of doc]
  by (simp add: frs_supported [OF assms])

theorem locate_first_anchor_witness:
  "(str_lower ''Termination'', ''termination'') \<in> {(''termination'', ''termination''), (''confidentiality'', ''confidential''), (''liability'', ''liabilit'')}
   \<and> occurs_at ''termination'' ''No TERMINATION here'' 3
   \<and> \<not> occurs_at ''termination'' ''No TERMINATION here'' 0
   \<and> \<not> occurs_at ''termination'' ''No TERMINATION here'' 1
   \<and> \<not> occurs_at ''termination'' ''No TERMINATION here'' 2
   \<and> find_relevant_section ''No TERMINATION here'' ''Termination'' = ''TERMINATION here''
   \<and> (\<forall>i. \<not> occurs_at ''termination'' ''contract'' i)
   \<and> find_relevant_section ''contract'' ''Termination'' = ''contract''"
proof -
  have a: "(str_lower ''Termination'', ''termination'') \<in> {(''termination'', ''termination''), (''confidentiality'', ''confidential''), (''liability'', ''liabilit'')}"
    by code_simp
  have b: "occurs_at ''termination'' ''No TERMINATION here'' 3"
    by code_simp
  have c0: "\<not> occurs_at ''termination'' ''No TERMINATION here'' 0
      \<and> \<not> occurs_at ''termination'' ''No TERMINATION here'' 1
      \<and> \<not> occurs_at ''termination'' ''No TERMINATION here'' 2"
    by code_simp
  then have c: "\<forall>j<3. \<not> occurs_at ''termination'' ''No TERMINATION here'' j"
    by (simp add: numeral_3_eq_3 numeral_2_eq_2 All_less_Suc)
  have d: "\<forall>i. \<not> occurs_at ''termination'' ''contract'' i"
    by (simp add: occurs_at_def)
  from locate_first_anchor [OF a, of "''No TERMINATION here''" 3] b c
       locate_first_anchor [OF a, of "''contract''"] d a c0
  show ?thesis by simp
qed

text \<open>
  C5. The locator returns at most 2000 characters for every text and every clause type
  string, and at most 1800 characters more than the keyword stem when the stem of a
  supported clause type occurs in the text.
\<close>

theorem locate_length_bound:
  "length (find_relevant_section doc clause_type) \<le> 2000
   \<and> ((str_lower clause_type, kw) \<in> {(''termination'', ''termination''), (''confidentiality'', ''confidential''), (''liability'', ''liabilit'')}
        \<and> occurs_at kw doc i
      \<longrightarrow> length (find_relevant_section doc clause_type) \<le> 1800 + length kw)"
proof -
  have found: "length (find_relevant_section doc clause_type) \<le> 1800 + length kw"
    if sup: "(str_lower clause_type, kw) \<in> {(''termination'', ''termination''), (''confidentiality'', ''confidential''), (''liability'', ''liabilit'')}"
    and occ: "\<exists>i. occurs_at kw doc i" for kw
    using re_search_anchor_cases [of kw doc] occ by (auto simp: frs_supported [OF sup])
  have "length (find_relevant_section doc clause_type) \<le> 2000"
  proof (cases "str_lower clause_type \<in> {''termination'', ''confidentiality'', ''liability''}")
    case False
    then show ?thesis by (simp add: frs_unsupported)
  next
    case True
    then obtain kw where sup: "(str_lower clause_type, kw) \<in> {(''termination'', ''termination''), (''confidentiality'', ''confidential''), (''liability'', ''liabilit'')}"
      by auto
    then have len: "length kw \<le> 12" by auto
    show ?thesis
    proof (cases "\<exists>i. occurs_at kw doc i")
      case True
      with found [OF sup] len show ?thesis by simp
    next
      case False
      with re_search_anchor_cases [of kw doc] show ?thesis
        by (auto simp: frs_supported [OF sup])
    qed
  qed
  with found show ?thesis by blast
qed

theorem locate_length_bound_witness:
  "(str_lower ''Liability'', ''liabilit'') \<in> {(''termination'', ''termination''), (''confidentiality'', ''confidential''), (''liability'', ''liabilit'')}
   \<and> occurs_at ''liabilit'' ''No LIABILITY here'' 3
   \<and> length (find_relevant_section ''No LIABILITY here'' ''Liability'') \<le> 1800 + length ''liabilit''"
proof -
  have a: "(str_lower ''Liability'', ''liabilit'') \<in> {(''termination'', ''termination''), (''confidentiality'', ''confidential''), (''liability'', ''liabilit'')}"
    by code_simp
  have b: "occurs_at ''liabilit'' ''No LIABILITY here'' 3"
    by code_simp
  from locate_length_bound [of "''No LIABILITY here''" "''Liability''" "''liabilit''" 3] a b
  show ?thesis by blast
qed

text \<open>
  C9. What the locator returns is a contiguous part of the text: the first 2000
  characters, or a span that starts where one of the three keyword stems occurs.
\<close>

theorem locate_is_substring:
  "sublist (find_relevant_section doc clause_type) doc
   \<and> (find_relevant_section doc clause_type = take 2000 doc
      \<or> (\<exists>kw i. kw \<in> {''termination'', ''confidential'', ''liabilit''} \<and> occurs_at kw doc i \<and> find_relevant_section doc clause_type = take (length kw + 1800) (drop i doc)))"
proof -
  have sub: "sublist (take n (drop i doc)) doc" for n i
    by (metis append_take_drop_id sublist_appendI)
  have "find_relevant_section doc clause_type = take 2000 doc
      \<or> (\<exists>kw i. kw \<in> {''termination'', ''confidential'', ''liabilit''} \<and> occurs_at kw doc i \<and> find_relevant_section doc clause_type = take (length kw + 1800) (drop i doc))"
  proof (cases "str_lower clause_type \<in> {''termination'', ''confidentiality'', ''liability''}")
    case False
    then show ?thesis by (simp add: frs_unsupported)
  next
    case True
    then obtain kw where sup: "(str_lower clause_type, kw) \<in> {(''termination'', ''termination''), (''confidentiality'', ''confidential''), (''liability'', ''liabilit'')}"
      by auto
    from re_search_anchor_cases [of kw doc] show ?thesis
    proof
      assume "\<exists>i. occurs_at kw doc i \<and> (\<forall>j<i. \<not> occurs_at kw doc j) \<and>
        re_search (anchor_window kw) doc = Some (take (length kw + 1800) (drop i doc))"
      then obtain i where "occurs_at kw doc i"
        and "re_search (anchor_window kw) doc = Some (take (length kw + 1800) (drop i doc))"
        by blast
      moreover from sup have "kw \<in> {''termination'', ''confidential'', ''liabilit''}"
        by auto
      ultimately have "kw \<in> {''termination'', ''confidential'', ''liabilit''} \<and> occurs_at kw doc i \<and>
          find_relevant_section doc clause_type = take (length kw + 1800) (drop i doc)"
        by (simp add: frs_supported [OF sup])
      then show ?thesis by blast
    next
      assume "(\<forall>i. \<not> occurs_at kw doc i) \<and> re_search (anchor_window kw) doc = None"
      then show ?thesis by (simp add: frs_supported [OF sup])
    qed
  qed
  then show ?thesis using sub [of 2000 0] sub by auto
qed

text \<open>
  C10. For a clause type that does not lower-case to one of the three supported names the
  dictionary holds no pattern, no search is run, and the locator returns the first 2000
  characters of the text. Two clause types with the same lower-case form give the same
  result, so the lookup ignores case.
\<close>

theorem unsupported_type_falls_back:
  "(str_lower clause_type \<notin> {''termination'', ''confidentiality'', ''liability''}
      \<longrightarrow> patterns (str_lower clause_type) = None
          \<and> find_relevant_section doc clause_type = take 2000 doc)
   \<and> (str_lower clause_type = str_lower other_type
      \<longrightarrow> find_relevant_section doc clause_type = find_relevant_section doc other_type)
   \<and> find_relevant_section doc (str_lower clause_type) = find_relevant_section doc clause_type"
  by (simp add: frs_unsupported patterns_eq find_relevant_section_def str_lower_idem)

theorem unsupported_type_falls_back_witness:
  "str_lower ''Indemnity'' \<notin> {''termination'', ''confidentiality'', ''liability''}
   \<and> patterns (str_lower ''Indemnity'') = None
   \<and> find_relevant_section ''The liability clause'' ''Indemnity'' = ''The liability clause''
   \<and> str_lower ''LIABILITY'' = str_lower ''Liability''
   \<and> find_relevant_section ''The liability clause'' ''LIABILITY'' = find_relevant_section ''The liability clause'' ''Liability''"
proof -
  have a: "str_lower ''Indemnity'' \<notin> {''termination'', ''confidentiality'', ''liability''}"
    by code_simp
  have b: "str_lower ''LIABILITY'' = str_lower ''Liability''"
    by code_simp
  from unsupported_type_falls_back [of "''Indemnity''" "''The liability clause''" "''Indemnity''"]
       unsupported_type_falls_back [of "''LIABILITY''" "''The liability clause''" "''Liability''"] a b
  show ?thesis by simp
qed

section \<open>Properties of the text normalizer\<close>

subsection \<open>Runs and adjacent characters\<close>

lemma sublist_pair_Cons:
  "sublist [a, b] (x # xs) \<longleftrightarrow> (x = a \<and> xs \<noteq> [] \<and> hd xs = b) \<or> sublist [a, b] xs"
  by (cases xs) (auto simp: sublist_Cons_right)

lemma prefix_replicate_run:
  "prefix (replicate n a) xs \<longleftrightarrow> n \<le> length (takeWhile (\<lambda>c. c = a) xs)"
proof (induction n arbitrary: xs)
  case 0
  then show ?case by simp
next
  case (Suc n)
  then show ?case by (cases xs) auto
qed

lemma is_LF_eq: "is_LF = (\<lambda>c. c = LF)"
  by (auto simp: is_LF_def)

lemma prefix_LF3: "prefix [LF, LF, LF] xs \<longleftrightarrow> 3 \<le> length (takeWhile is_LF xs)"
  using prefix_replicate_run [of 3 LF xs] by (simp add: numeral_3_eq_3 is_LF_eq)

lemma sublist_LF3_Cons:
  "sublist [LF, LF, LF] (x # xs) \<longleftrightarrow>
     3 \<le> length (takeWhile is_LF (x # xs)) \<or> sublist [LF, LF, LF] xs"
  unfolding sublist_Cons_right prefix_LF3 ..

lemma sublist_suffix: "\<not> sublist p s \<Longrightarrow> \<not> sublist p (dropWhile P s)"
  by (metis sublist_order.order.trans suffix_dropWhile suffix_imp_sublist)

subsection \<open>The three substitutions as recursions\<close>

lemma collapse_hspace_Nil [simp]: "collapse_hspace [] = []"
  by (simp add: collapse_hspace_def)

lemma collapse_hspace_Cons:
  "collapse_hspace (c # cs) =
     (if hspace c then SP # collapse_hspace (dropWhile hspace cs)
      else c # collapse_hspace cs)"
  by (simp add: collapse_hspace_def at_least_def length_dropWhile_le)

lemma collapse_newlines_Nil [simp]: "collapse_newlines [] = []"
  by (simp add: collapse_newlines_def)

lemma collapse_newlines_Cons:
  "collapse_newlines (c # cs) =
     (if 3 \<le> length (takeWhile is_LF (c # cs))
      then LF # LF # collapse_newlines (dropWhile is_LF cs)
      else c # collapse_newlines cs)"
proof (cases "is_LF c")
  case True
  then show ?thesis
    by (simp add: collapse_newlines_def at_least_def length_dropWhile_le)
next
  case False
  then show ?thesis by (simp add: collapse_newlines_def at_least_def)
qed

subsection \<open>Collapsing horizontal whitespace\<close>

lemma collapse_hspace_id:
  "TAB \<notin> set s \<Longrightarrow> \<not> sublist [SP, SP] s \<Longrightarrow> collapse_hspace s = s"
proof (induction s)
  case Nil
  then show ?case by simp
next
  case (Cons c cs)
  from Cons.prems have rest: "TAB \<notin> set cs" "\<not> sublist [SP, SP] cs"
    by (auto simp: sublist_pair_Cons)
  show ?case
  proof (cases "hspace c")
    case False
    with Cons.IH rest show ?thesis by (simp add: collapse_hspace_Cons)
  next
    case True
    with Cons.prems have c: "c = SP" by (auto simp: hspace_def)
    with Cons.prems rest have "cs = [] \<or> \<not> hspace (hd cs)"
      by (cases cs) (auto simp: sublist_pair_Cons hspace_def)
    then have "dropWhile hspace cs = cs" by (cases cs) auto
    with Cons.IH rest c True show ?thesis by (simp add: collapse_hspace_Cons)
  qed
qed

lemma collapse_hspace_head:
  "s = [] \<or> \<not> hspace (hd s) \<Longrightarrow>
   collapse_hspace s = [] \<and> s = [] \<or> collapse_hspace s \<noteq> [] \<and> hd (collapse_hspace s) = hd s"
  by (cases s) (auto simp: collapse_hspace_Cons)

lemma dropWhile_head: "dropWhile P s = [] \<or> \<not> P (hd (dropWhile P s))"
  using hd_dropWhile by blast

lemma set_dropWhile_subset: "set (dropWhile P cs) \<subseteq> set cs"
  by (auto dest: set_dropWhileD)

lemma collapse_hspace_set: "set (collapse_hspace s) \<subseteq> (set s - {TAB}) \<union> {SP}"
proof (induction s rule: measure_induct_rule [where f = length])
  case (less s)
  show ?case
  proof (cases s)
    case Nil
    then show ?thesis by simp
  next
    case (Cons c cs)
    show ?thesis
    proof (cases "hspace c")
      case True
      have "length (dropWhile hspace cs) < length s"
        using Cons length_dropWhile_le [of hspace cs] by simp
      then have "set (collapse_hspace (dropWhile hspace cs))
          \<subseteq> (set (dropWhile hspace cs) - {TAB}) \<union> {SP}"
        by (rule less.IH)
      with set_dropWhile_subset [of hspace cs]
      have "set (collapse_hspace (dropWhile hspace cs)) \<subseteq> (set cs - {TAB}) \<union> {SP}"
        by blast
      then have "set (SP # collapse_hspace (dropWhile hspace cs)) \<subseteq> (set (c # cs) - {TAB}) \<union> {SP}"
        by auto
      with True Cons show ?thesis by (simp add: collapse_hspace_Cons)
    next
      case False
      then have c: "c \<noteq> TAB" by (simp add: hspace_def)
      have "length cs < length s" using Cons by simp
      then have "set (collapse_hspace cs) \<subseteq> (set cs - {TAB}) \<union> {SP}" by (rule less.IH)
      with c have "set (c # collapse_hspace cs) \<subseteq> (set (c # cs) - {TAB}) \<union> {SP}"
        by auto
      with False Cons show ?thesis by (simp add: collapse_hspace_Cons)
    qed
  qed
qed

lemma collapse_hspace_no_pair: "\<not> sublist [SP, SP] (collapse_hspace s)"
proof (induction s rule: measure_induct_rule [where f = length])
  case (less s)
  show ?case
  proof (cases s)
    case Nil
    then show ?thesis by simp
  next
    case (Cons c cs)
    show ?thesis
    proof (cases "hspace c")
      case False
      then have c: "c \<noteq> SP" by (simp add: hspace_def)
      have "length cs < length s" using Cons by simp
      then have "\<not> sublist [SP, SP] (collapse_hspace cs)" by (rule less.IH)
      with c have "\<not> sublist [SP, SP] (c # collapse_hspace cs)"
        by (simp add: sublist_pair_Cons)
      with False Cons show ?thesis by (simp add: collapse_hspace_Cons)
    next
      case True
      define d where "d = dropWhile hspace cs"
      have "length d < length s"
        unfolding d_def using Cons length_dropWhile_le [of hspace cs] by simp
      then have ih: "\<not> sublist [SP, SP] (collapse_hspace d)" by (rule less.IH)
      have start: "d = [] \<or> \<not> hspace (hd d)"
        unfolding d_def by (rule dropWhile_head)
      have "collapse_hspace d = [] \<or> hd (collapse_hspace d) \<noteq> SP"
      proof (cases d)
        case Nil
        then show ?thesis by simp
      next
        case (Cons x xs)
        with start have "\<not> hspace x" by simp
        with Cons show ?thesis by (simp add: collapse_hspace_Cons hspace_def)
      qed
      with ih have "\<not> sublist [SP, SP] (SP # collapse_hspace d)"
        by (auto simp: sublist_pair_Cons)
      with True Cons show ?thesis
        unfolding d_def by (simp add: collapse_hspace_Cons)
    qed
  qed
qed

subsection \<open>Collapsing runs of newlines\<close>

lemma collapse_newlines_id:
  "\<not> sublist [LF, LF, LF] s \<Longrightarrow> collapse_newlines s = s"
proof (induction s)
  case Nil
  then show ?case by simp
next
  case (Cons c cs)
  from Cons.prems have "\<not> 3 \<le> length (takeWhile is_LF (c # cs))" and "\<not> sublist [LF, LF, LF] cs"
    unfolding sublist_LF3_Cons by simp_all
  with Cons.IH show ?case by (simp add: collapse_newlines_Cons)
qed

lemma collapse_newlines_head:
  "s \<noteq> [] \<Longrightarrow> collapse_newlines s \<noteq> [] \<and> hd (collapse_newlines s) = hd s"
proof (cases s)
  case Nil
  assume "s \<noteq> []"
  with Nil show ?thesis by simp
next
  case (Cons c cs)
  show ?thesis
  proof (cases "3 \<le> length (takeWhile is_LF (c # cs))")
    case True
    then have "c = LF" by (cases "is_LF c") (simp_all add: is_LF_def)
    with True Cons show ?thesis by (simp add: collapse_newlines_Cons)
  next
    case False
    with Cons show ?thesis by (simp add: collapse_newlines_Cons)
  qed
qed

lemma collapse_newlines_set: "set (collapse_newlines s) \<subseteq> set s"
proof (induction s rule: measure_induct_rule [where f = length])
  case (less s)
  show ?case
  proof (cases s)
    case Nil
    then show ?thesis by simp
  next
    case (Cons c cs)
    show ?thesis
    proof (cases "3 \<le> length (takeWhile is_LF (c # cs))")
      case True
      then have c: "c = LF" by (cases "is_LF c") (simp_all add: is_LF_def)
      have "length (dropWhile is_LF cs) < length s"
        using Cons length_dropWhile_le [of is_LF cs] by simp
      then have "set (collapse_newlines (dropWhile is_LF cs)) \<subseteq> set (dropWhile is_LF cs)"
        by (rule less.IH)
      with set_dropWhile_subset [of is_LF cs]
      have "set (collapse_newlines (dropWhile is_LF cs)) \<subseteq> set cs" by blast
      with c have "set (LF # LF # collapse_newlines (dropWhile is_LF cs)) \<subseteq> set (c # cs)"
        by auto
      with True Cons show ?thesis by (simp only: collapse_newlines_Cons if_True)
    next
      case False
      have "length cs < length s" using Cons by simp
      then have "set (collapse_newlines cs) \<subseteq> set cs" by (rule less.IH)
      then have "set (c # collapse_newlines cs) \<subseteq> set (c # cs)" by auto
      with False Cons show ?thesis by (simp only: collapse_newlines_Cons if_False)
    qed
  qed
qed

lemma collapse_newlines_run:
  "length (takeWhile is_LF (collapse_newlines s)) =
     (if 3 \<le> length (takeWhile is_LF s) then 2 else length (takeWhile is_LF s))"
proof (induction s rule: measure_induct_rule [where f = length])
  case (less s)
  show ?case
  proof (cases s)
    case Nil
    then show ?thesis by simp
  next
    case (Cons c cs)
    show ?thesis
    proof (cases "3 \<le> length (takeWhile is_LF (c # cs))")
      case True
      define d where "d = dropWhile is_LF cs"
      have start: "d = [] \<or> \<not> is_LF (hd d)" unfolding d_def by (rule dropWhile_head)
      have "takeWhile is_LF (collapse_newlines d) = []"
      proof (cases "d = []")
        case True
        then show ?thesis by simp
      next
        case False
        with start collapse_newlines_head [of d]
        have "collapse_newlines d \<noteq> []" and "\<not> is_LF (hd (collapse_newlines d))" by simp_all
        then show ?thesis by (cases "collapse_newlines d") simp_all
      qed
      then have "length (takeWhile is_LF (LF # LF # collapse_newlines d)) = 2"
        by (simp add: is_LF_def)
      with True Cons show ?thesis unfolding d_def by (simp add: collapse_newlines_Cons)
    next
      case False
      have "length cs < length s" using Cons by simp
      then have ih: "length (takeWhile is_LF (collapse_newlines cs)) =
         (if 3 \<le> length (takeWhile is_LF cs) then 2 else length (takeWhile is_LF cs))"
        by (rule less.IH)
      show ?thesis
      proof (cases "is_LF c")
        case True
        with False have "\<not> 3 \<le> length (takeWhile is_LF cs)" by simp
        with ih have "length (takeWhile is_LF (collapse_newlines cs)) = length (takeWhile is_LF cs)"
          by simp
        with True have "length (takeWhile is_LF (c # collapse_newlines cs)) =
            length (takeWhile is_LF (c # cs))" by simp
        with False Cons show ?thesis by (simp add: collapse_newlines_Cons)
      next
        case nl: False
        with False Cons show ?thesis by (simp add: collapse_newlines_Cons)
      qed
    qed
  qed
qed

lemma collapse_newlines_no_triple: "\<not> sublist [LF, LF, LF] (collapse_newlines s)"
proof (induction s rule: measure_induct_rule [where f = length])
  case (less s)
  show ?case
  proof (cases s)
    case Nil
    then show ?thesis by simp
  next
    case (Cons c cs)
    show ?thesis
    proof (cases "3 \<le> length (takeWhile is_LF (c # cs))")
      case True
      define d where "d = dropWhile is_LF cs"
      have "length d < length s"
        unfolding d_def using Cons length_dropWhile_le [of is_LF cs] by simp
      then have ih: "\<not> sublist [LF, LF, LF] (collapse_newlines d)" by (rule less.IH)
      have start: "d = [] \<or> \<not> is_LF (hd d)" unfolding d_def by (rule dropWhile_head)
      have "length (takeWhile is_LF d) = 0"
        using start by (cases d) simp_all
      then have run: "length (takeWhile is_LF (collapse_newlines d)) = 0"
        using collapse_newlines_run [of d] by simp
      then have "takeWhile is_LF (collapse_newlines d) = []" by simp
      then have "\<not> sublist [LF, LF, LF] (LF # LF # collapse_newlines d)"
        using ih by (simp add: sublist_LF3_Cons is_LF_def)
      with True Cons show ?thesis unfolding d_def by (simp add: collapse_newlines_Cons)
    next
      case False
      have "length cs < length s" using Cons by simp
      then have ih: "\<not> sublist [LF, LF, LF] (collapse_newlines cs)" by (rule less.IH)
      have "\<not> 3 \<le> length (takeWhile is_LF (c # collapse_newlines cs))"
      proof (cases "is_LF c")
        case True
        with False have "\<not> 3 \<le> length (takeWhile is_LF cs)" by simp
        with collapse_newlines_run [of cs]
        have "length (takeWhile is_LF (collapse_newlines cs)) = length (takeWhile is_LF cs)"
          by simp
        with True False show ?thesis by simp
      next
        case nl: False
        then show ?thesis by simp
      qed
      with ih have "\<not> sublist [LF, LF, LF] (c # collapse_newlines cs)"
        unfolding sublist_LF3_Cons by simp
      with False Cons show ?thesis by (simp add: collapse_newlines_Cons)
    qed
  qed
qed

lemma collapse_newlines_no_pair:
  "\<not> sublist [SP, SP] s \<Longrightarrow> \<not> sublist [SP, SP] (collapse_newlines s)"
proof (induction s rule: measure_induct_rule [where f = length])
  case (less s)
  show ?case
  proof (cases s)
    case Nil
    then show ?thesis by simp
  next
    case (Cons c cs)
    show ?thesis
    proof (cases "3 \<le> length (takeWhile is_LF (c # cs))")
      case True
      define d where "d = dropWhile is_LF cs"
      have "length d < length s"
        unfolding d_def using Cons length_dropWhile_le [of is_LF cs] by simp
      moreover have "\<not> sublist [SP, SP] cs"
        using less.prems Cons by (simp add: sublist_pair_Cons)
      then have "\<not> sublist [SP, SP] d" unfolding d_def by (rule sublist_suffix)
      ultimately have "\<not> sublist [SP, SP] (collapse_newlines d)" by (rule less.IH)
      then have "\<not> sublist [SP, SP] (LF # LF # collapse_newlines d)"
        by (simp add: sublist_pair_Cons)
      with True Cons show ?thesis unfolding d_def by (simp add: collapse_newlines_Cons)
    next
      case False
      have cs: "\<not> sublist [SP, SP] cs"
        using less.prems Cons by (simp add: sublist_pair_Cons)
      have "length cs < length s" using Cons by simp
      then have ih: "\<not> sublist [SP, SP] (collapse_newlines cs)" using cs by (rule less.IH)
      have "\<not> (c = SP \<and> collapse_newlines cs \<noteq> [] \<and> hd (collapse_newlines cs) = SP)"
      proof (cases "cs = []")
        case True
        then show ?thesis by simp
      next
        case ne: False
        from less.prems Cons have "\<not> (c = SP \<and> cs \<noteq> [] \<and> hd cs = SP)"
          by (simp add: sublist_pair_Cons)
        with collapse_newlines_head [OF ne] ne show ?thesis by simp
      qed
      with ih have "\<not> sublist [SP, SP] (c # collapse_newlines cs)"
        by (simp add: sublist_pair_Cons)
      with False Cons show ?thesis by (simp add: collapse_newlines_Cons)
    qed
  qed
qed

subsection \<open>Unifying line endings\<close>

lemma replace_nonempty_absent:
  "a \<notin> set s \<Longrightarrow> replace_nonempty (a # old) new s = s"
  by (induction s) auto

lemma replace_nonempty_single:
  "replace_nonempty [a] new (c # cs) =
     (if c = a then new @ replace_nonempty [a] new cs else c # replace_nonempty [a] new cs)"
  by simp

lemma replace_nonempty_removes:
  "a \<notin> set new \<Longrightarrow> a \<notin> set (replace_nonempty [a] new s)"
  by (induction s) (simp_all only: replace_nonempty.simps(1) replace_nonempty_single, auto)

lemma unify_newlines_id: "CR \<notin> set s \<Longrightarrow> unify_newlines s = s"
  by (simp add: unify_newlines_def str_replace_def replace_nonempty_absent)

lemma unify_newlines_no_CR: "CR \<notin> set (unify_newlines s)"
  unfolding unify_newlines_def str_replace_def
  using replace_nonempty_removes [of CR "[LF]"] by simp

subsection \<open>Texts without a match\<close>

lemma re_search_None_Cons:
  "re_search m (c # cs) = None \<longleftrightarrow> m (c # cs) = None \<and> re_search m cs = None"
  by (simp split: option.splits)

lemma re_sub_no_match: "re_search m s = None \<Longrightarrow> re_sub m repl s = s"
  by (induction s) (simp_all add: re_search_None_Cons del: re_search.simps(2))

lemma re_search_None_suffix: "re_search m (p @ s) = None \<Longrightarrow> re_search m s = None"
  by (induction p) (simp_all add: re_search_None_Cons del: re_search.simps(2))

lemma re_search_start: "m s \<noteq> None \<Longrightarrow> re_search m s \<noteq> None"
  by (cases s) (auto split: option.splits)

lemma re_search_None_prefix:
  assumes ext: "\<And>s t. m s \<noteq> None \<Longrightarrow> m (s @ t) \<noteq> None"
  shows "re_search m (s @ t) = None \<Longrightarrow> re_search m s = None"
proof (induction s)
  case Nil
  have "m [] = None"
  proof (rule ccontr)
    assume "m [] \<noteq> None"
    then have "m ([] @ t) \<noteq> None" by (rule ext)
    then have "re_search m t \<noteq> None" using re_search_start [of m t] by simp
    with Nil show False by simp
  qed
  then show ?case by simp
next
  case (Cons c cs)
  then have a: "m (c # cs @ t) = None" and b: "re_search m (cs @ t) = None"
    by (simp_all add: re_search_None_Cons del: re_search.simps(2))
  have "m (c # cs) = None"
  proof (rule ccontr)
    assume "m (c # cs) \<noteq> None"
    then have "m ((c # cs) @ t) \<noteq> None" by (rule ext)
    with a show False by simp
  qed
  with Cons.IH [OF b] show ?case by (simp add: re_search_None_Cons del: re_search.simps(2))
qed

subsection \<open>A footer stays a footer when text follows\<close>

lemma lit_ci_append: "lit_ci kw s = Some r \<Longrightarrow> lit_ci kw (s @ t) = Some (r @ t)"
  by (induction kw s rule: lit_ci.induct) (auto split: if_splits)

lemma at_least_append:
  "at_least n P s = Some r \<Longrightarrow> r \<noteq> [] \<Longrightarrow> at_least n P (s @ t) = Some (r @ t)"
proof -
  assume a: "at_least n P s = Some r" and r: "r \<noteq> []"
  from a have n: "n \<le> length (takeWhile P s)" and d: "r = dropWhile P s"
    by (auto simp: at_least_def split: if_splits)
  from r d obtain x where x: "x \<in> set s" "\<not> P x"
    by (auto simp: dropWhile_eq_Nil_conv)
  then have "takeWhile P (s @ t) = takeWhile P s" and "dropWhile P (s @ t) = dropWhile P s @ t"
    by (simp_all add: takeWhile_append1 dropWhile_append1)
  with n d show ?thesis by (simp add: at_least_def)
qed

lemma takeWhile_append_length: "length (takeWhile P s) \<le> length (takeWhile P (s @ t))"
  by (induction s) auto

lemma at_least_ext: "at_least n P s \<noteq> None \<Longrightarrow> at_least n P (s @ t) \<noteq> None"
  using takeWhile_append_length [of P s t]
  by (auto simp: at_least_def split: if_splits)

lemma seq_m_ext:
  assumes m1: "\<And>s r t. m1 s = Some r \<Longrightarrow> r \<noteq> [] \<Longrightarrow> m1 (s @ t) = Some (r @ t)"
    and nil: "m2 [] = None"
    and m2: "\<And>s t. m2 s \<noteq> None \<Longrightarrow> m2 (s @ t) \<noteq> None"
  shows "seq_m m1 m2 s \<noteq> None \<Longrightarrow> seq_m m1 m2 (s @ t) \<noteq> None"
proof -
  assume "seq_m m1 m2 s \<noteq> None"
  then obtain r where r: "m1 s = Some r" and ok: "m2 r \<noteq> None"
    by (auto simp: seq_m_def split: option.splits)
  from ok nil have "r \<noteq> []" by auto
  with r have "m1 (s @ t) = Some (r @ t)" by (rule m1)
  moreover from ok have "m2 (r @ t) \<noteq> None" by (rule m2)
  ultimately show ?thesis by (simp add: seq_m_def)
qed

lemma seq_m_Nil: "m1 [] = None \<Longrightarrow> seq_m m1 m2 [] = None"
  by (simp add: seq_m_def)

lemma at_least_1_Nil: "at_least 1 P [] = None"
  by (simp add: at_least_def)

lemma lit_ci_Nil: "lit_ci (p # ps) [] = None"
  by simp

lemma page_footer_ext: "page_footer s \<noteq> None \<Longrightarrow> page_footer (s @ t) \<noteq> None"
  unfolding page_footer_def
  by (intro seq_m_ext lit_ci_append at_least_append at_least_ext seq_m_Nil at_least_1_Nil lit_ci_Nil)

subsection \<open>Stripping\<close>

lemma strip_decomp: "\<exists>a b. s = a @ strip s @ b"
proof -
  let ?d = "dropWhile isspace s"
  have "s = takeWhile isspace s @ ?d" by simp
  moreover have "rev ?d = takeWhile isspace (rev ?d) @ dropWhile isspace (rev ?d)" by simp
  then have "?d = strip s @ rev (takeWhile isspace (rev ?d))"
    unfolding strip_def by (metis rev_append rev_rev_ident)
  ultimately have "s = takeWhile isspace s @ strip s @ rev (takeWhile isspace (rev ?d))"
    by simp
  then show ?thesis by blast
qed

lemma strip_sublist: "sublist (strip s) s"
  using strip_decomp [of s] unfolding sublist_def by blast

lemma dropWhile_fix: "s = [] \<or> \<not> P (hd s) \<Longrightarrow> dropWhile P s = s"
  by (cases s) auto

lemma strip_idem: "strip (strip s) = strip s"
proof -
  define u where "u = dropWhile isspace (rev (dropWhile isspace s))"
  have t: "strip s = rev u" by (simp add: strip_def u_def)
  have u: "dropWhile isspace u = u" unfolding u_def by (rule dropWhile_idem)
  have "rev u = [] \<or> \<not> isspace (hd (rev u))"
  proof (cases "u = []")
    case True
    then show ?thesis by simp
  next
    case False
    let ?d = "dropWhile isspace s"
    have "rev ?d = takeWhile isspace (rev ?d) @ u" by (simp add: u_def)
    then have d: "?d = rev u @ rev (takeWhile isspace (rev ?d))"
      by (metis rev_append rev_rev_ident)
    have "?d \<noteq> []"
    proof
      assume "?d = []"
      with d have "rev u = []" by (metis append_is_Nil_conv)
      with False show False by simp
    qed
    then have "\<not> isspace (hd ?d)" by (rule hd_dropWhile)
    moreover from d False have "hd ?d = hd (rev u)" by (metis hd_append2 rev_is_Nil_conv)
    ultimately show ?thesis by simp
  qed
  then have "dropWhile isspace (rev u) = rev u" by (rule dropWhile_fix)
  then have "strip (rev u) = rev (dropWhile isspace u)"
    unfolding strip_def by simp
  with u t show ?thesis by simp
qed

lemma strip_keeps:
  "CR \<notin> set s \<Longrightarrow> CR \<notin> set (strip s)"
  "TAB \<notin> set s \<Longrightarrow> TAB \<notin> set (strip s)"
  "\<not> sublist p s \<Longrightarrow> \<not> sublist p (strip s)"
  using strip_sublist [of s] set_mono_sublist [of "strip s" s]
  by (auto dest: sublist_order.order.trans)

lemma strip_no_footer:
  "re_search page_footer s = None \<Longrightarrow> re_search page_footer (strip s) = None"
proof -
  assume a: "re_search page_footer s = None"
  obtain p q where s: "s = p @ strip s @ q" using strip_decomp by blast
  with a have "re_search page_footer (p @ strip s @ q) = None" by simp
  then have "re_search page_footer (strip s @ q) = None" by (rule re_search_None_suffix)
  moreover have "\<And>s t. page_footer s \<noteq> None \<Longrightarrow> page_footer (s @ t) \<noteq> None"
    by (rule page_footer_ext)
  ultimately show ?thesis using re_search_None_prefix [of page_footer "strip s" q] by blast
qed

subsection \<open>Claims about the normalizer\<close>

lemma normalize_clean:
  assumes "CR \<notin> set x" and "TAB \<notin> set x" and "\<not> sublist [SP, SP] x"
    and "\<not> sublist [LF, LF, LF] x" and "re_search page_footer x = None"
  shows "normalize_text x = strip x"
  using assms
  by (simp add: normalize_text_def unify_newlines_id collapse_hspace_id collapse_newlines_id
      remove_footers_def re_sub_no_match)

lemma stages_clean:
  fixes x :: string
  defines "y \<equiv> collapse_newlines (collapse_hspace (unify_newlines x))"
  shows "CR \<notin> set y" and "TAB \<notin> set y" and "\<not> sublist [SP, SP] y"
    and "\<not> sublist [LF, LF, LF] y"
proof -
  let ?u = "unify_newlines x"
  let ?h = "collapse_hspace ?u"
  have "CR \<notin> set ?u" by (rule unify_newlines_no_CR)
  with collapse_hspace_set [of ?u] have "CR \<notin> set ?h" by auto
  with collapse_newlines_set [of ?h] show "CR \<notin> set y" unfolding y_def by auto
  from collapse_hspace_set [of ?u] have "TAB \<notin> set ?h" by auto
  with collapse_newlines_set [of ?h] show "TAB \<notin> set y" unfolding y_def by auto
  show "\<not> sublist [SP, SP] y"
    unfolding y_def by (rule collapse_newlines_no_pair) (rule collapse_hspace_no_pair)
  show "\<not> sublist [LF, LF, LF] y"
    unfolding y_def by (rule collapse_newlines_no_triple)
qed

text \<open>
  Where the footer rule removes nothing, a second run of the normalizer changes nothing.
\<close>

lemma normalize_twice_without_footer:
  assumes "re_search page_footer (collapse_newlines (collapse_hspace (unify_newlines x))) = None"
  shows "normalize_text (normalize_text x) = normalize_text x"
proof -
  define y where "y = collapse_newlines (collapse_hspace (unify_newlines x))"
  from assms have nf: "re_search page_footer y = None" by (simp add: y_def)
  then have n: "normalize_text x = strip y"
    by (simp add: normalize_text_def y_def remove_footers_def re_sub_no_match)
  have "CR \<notin> set (strip y)" and "TAB \<notin> set (strip y)"
    and "\<not> sublist [SP, SP] (strip y)" and "\<not> sublist [LF, LF, LF] (strip y)"
    using stages_clean [of x] unfolding y_def [symmetric] by (simp_all add: strip_keeps)
  moreover from nf have "re_search page_footer (strip y) = None" by (rule strip_no_footer)
  ultimately have "normalize_text (strip y) = strip (strip y)" by (rule normalize_clean)
  with n show ?thesis by (simp add: strip_idem)
qed

text \<open>
  C1. Normalization is idempotent: normalizing a normalized text gives the same text.
  The program does not keep this. It removes the page footers after it has collapsed the
  runs of newlines, and the text around a removed footer closes up into a new run. Two
  pages, each ending in its footer and joined by a blank line as the extraction joins
  them, come out of the first pass with three newlines in a row, the run the newline rule
  is there to collapse; a second pass collapses it to two.
\<close>

theorem normalize_not_idempotent_two_pages:
  "str_join [LF, LF] [''a'' @ [LF] @ ''Page 1 of 2'', ''b'' @ [LF] @ ''Page 2 of 2'']
     = ''a'' @ [LF] @ ''Page 1 of 2'' @ [LF, LF] @ ''b'' @ [LF] @ ''Page 2 of 2''
   \<and> normalize_text (''a'' @ [LF] @ ''Page 1 of 2'' @ [LF, LF] @ ''b'' @ [LF] @ ''Page 2 of 2'')
     = ''a'' @ [LF, LF, LF] @ ''b''
   \<and> normalize_text (normalize_text
        (''a'' @ [LF] @ ''Page 1 of 2'' @ [LF, LF] @ ''b'' @ [LF] @ ''Page 2 of 2''))
     = ''a'' @ [LF, LF] @ ''b''
   \<and> normalize_text (normalize_text
        (''a'' @ [LF] @ ''Page 1 of 2'' @ [LF, LF] @ ''b'' @ [LF] @ ''Page 2 of 2''))
     \<noteq> normalize_text (''a'' @ [LF] @ ''Page 1 of 2'' @ [LF, LF] @ ''b'' @ [LF] @ ''Page 2 of 2'')"
  by code_simp

text \<open>
  C7. For every text with no carriage return, no tab, no two spaces in a row, no three
  newlines in a row and no match of the page footer pattern, normalizing is the same as
  trimming the whitespace at both ends.
\<close>

theorem normalize_is_strip:
  assumes "CR \<notin> set x" and "TAB \<notin> set x" and "\<not> sublist [SP, SP] x"
    and "\<not> sublist [LF, LF, LF] x" and "re_search page_footer x = None"
  shows "normalize_text x = strip x"
  using assms by (rule normalize_clean)

theorem normalize_is_strip_witness:
  "CR \<notin> set [SP, CHR ''P'', CHR ''a'', CHR ''g'', CHR ''e'', SP, CHR ''1'', LF, LF, CHR ''o'', CHR ''f'', LF]
   \<and> TAB \<notin> set [SP, CHR ''P'', CHR ''a'', CHR ''g'', CHR ''e'', SP, CHR ''1'', LF, LF, CHR ''o'', CHR ''f'', LF]
   \<and> \<not> sublist [SP, SP] [SP, CHR ''P'', CHR ''a'', CHR ''g'', CHR ''e'', SP, CHR ''1'', LF, LF, CHR ''o'', CHR ''f'', LF]
   \<and> \<not> sublist [LF, LF, LF] [SP, CHR ''P'', CHR ''a'', CHR ''g'', CHR ''e'', SP, CHR ''1'', LF, LF, CHR ''o'', CHR ''f'', LF]
   \<and> re_search page_footer [SP, CHR ''P'', CHR ''a'', CHR ''g'', CHR ''e'', SP, CHR ''1'', LF, LF, CHR ''o'', CHR ''f'', LF] = None
   \<and> normalize_text [SP, CHR ''P'', CHR ''a'', CHR ''g'', CHR ''e'', SP, CHR ''1'', LF, LF, CHR ''o'', CHR ''f'', LF]
       = [CHR ''P'', CHR ''a'', CHR ''g'', CHR ''e'', SP, CHR ''1'', LF, LF, CHR ''o'', CHR ''f'']"
proof -
  let ?x = "[SP, CHR ''P'', CHR ''a'', CHR ''g'', CHR ''e'', SP, CHR ''1'', LF, LF, CHR ''o'', CHR ''f'', LF]"
  have a: "CR \<notin> set ?x" by simp
  have b: "TAB \<notin> set ?x" by simp
  have c: "\<not> sublist [SP, SP] ?x" by code_simp
  have d: "\<not> sublist [LF, LF, LF] ?x" by code_simp
  have e: "re_search page_footer ?x = None" by code_simp
  have f: "strip ?x = [CHR ''P'', CHR ''a'', CHR ''g'', CHR ''e'', SP, CHR ''1'', LF, LF, CHR ''o'', CHR ''f'']"
    by code_simp
  from normalize_is_strip [OF a b c d e] a b c d e f show ?thesis by simp
qed

text \<open>
  With only the two conditions of C7 as stated (no three newlines in a row, no two
  spaces in a row) the equation fails on a page footer, on a tab and on a carriage
  return.
\<close>

theorem normalize_trim_counterexample:
  "\<not> sublist [LF, LF, LF] ''Page 1 of 2'' \<and> \<not> sublist [SP, SP] ''Page 1 of 2''
   \<and> normalize_text ''Page 1 of 2'' \<noteq> strip ''Page 1 of 2''
   \<and> \<not> sublist [LF, LF, LF] [CHR ''a'', TAB, CHR ''b''] \<and> \<not> sublist [SP, SP] [CHR ''a'', TAB, CHR ''b'']
   \<and> normalize_text [CHR ''a'', TAB, CHR ''b''] \<noteq> strip [CHR ''a'', TAB, CHR ''b'']
   \<and> \<not> sublist [LF, LF, LF] [CHR ''a'', CR, CHR ''b''] \<and> \<not> sublist [SP, SP] [CHR ''a'', CR, CHR ''b'']
   \<and> normalize_text [CHR ''a'', CR, CHR ''b''] \<noteq> strip [CHR ''a'', CR, CHR ''b'']"
  by code_simp

section \<open>Properties of the gateway and of the pipeline\<close>

subsection \<open>The gateway\<close>

lemma strip_edges:
  "takeWhile isspace (strip s) = []" "takeWhile isspace (rev (strip s)) = []"
proof -
  have a: "dropWhile isspace (rev (strip s)) = rev (strip s)"
    by (simp add: strip_def)
  have "strip (strip s) = strip s" by (rule strip_idem)
  then have "rev (dropWhile isspace (rev (dropWhile isspace (strip s)))) = strip s"
    by (simp add: strip_def)
  then have "length (dropWhile isspace (rev (dropWhile isspace (strip s)))) = length (strip s)"
    by (metis length_rev)
  moreover have "length (dropWhile isspace (rev (dropWhile isspace (strip s))))
      \<le> length (dropWhile isspace (strip s))"
    using length_dropWhile_le [of isspace "rev (dropWhile isspace (strip s))"] by simp
  ultimately have "length (strip s) \<le> length (dropWhile isspace (strip s))" by simp
  moreover have "length (takeWhile isspace (strip s)) + length (dropWhile isspace (strip s))
      = length (strip s)"
    by (metis length_append takeWhile_dropWhile_id)
  ultimately have "length (takeWhile isspace (strip s)) = 0" by linarith
  then show "takeWhile isspace (strip s) = []" by simp
  have "length (takeWhile isspace (rev (strip s))) + length (dropWhile isspace (rev (strip s)))
      = length (rev (strip s))"
    by (metis length_append takeWhile_dropWhile_id)
  with a have "length (takeWhile isspace (rev (strip s))) = 0" by simp
  then show "takeWhile isspace (rev (strip s)) = []" by simp
qed

lemma call_groq_try_eq:
  "chat_completions_create env (chat_request sp up mt) (world st) = (resp, w) \<Longrightarrow>
   call_groq_try env sp up mt st =
     ((case resp of Inl e \<Rightarrow> Inl e | Inr choices \<Rightarrow> first_content choices),
      emit (Chat_request (chat_request sp up mt)) (st\<lparr>world := w\<rparr>))"
  by (simp add: call_groq_try_def Let_def split: sum.splits)

lemma call_groq_down:
  assumes "\<forall>sp up mt s. isl (fst (call_groq_try env sp up mt s))"
  shows "fst (call_groq env sp up mt st) = ''''"
proof -
  obtain res st1 where c: "call_groq_try env sp up mt st = (res, st1)"
    by (cases "call_groq_try env sp up mt st")
  with assms have "isl res" by (metis fst_conv)
  then obtain e where "res = Inl e" by (cases res) simp_all
  with c show ?thesis by (simp add: call_groq_def)
qed

text \<open>
  C3. The gateway raises nothing to its caller. Whatever the body of its \<^verbatim>\<open>try\<close>
  raises, \<^term>\<open>call_groq\<close> prints the error and returns the empty string: when the
  call to the service raises, when the response has no choice (an \<^verbatim>\<open>IndexError\<close>), and
  when the content of its first choice is null (an \<^verbatim>\<open>AttributeError\<close>). When the
  call succeeds it returns the content of the first choice stripped, which begins and
  ends with no whitespace character, and prints nothing.
\<close>

theorem gateway_fail_soft:
  "(call_groq_try env sp up mt st = (Inl e, st1) \<longrightarrow>
      call_groq env sp up mt st = ('''', emit (Print_groq_error e) st1))
   \<and> (chat_completions_create env (chat_request sp up mt) (world st) = (Inl e, w) \<longrightarrow>
      call_groq env sp up mt st =
        ('''', emit (Print_groq_error e)
                (emit (Chat_request (chat_request sp up mt)) (st\<lparr>world := w\<rparr>))))
   \<and> (chat_completions_create env (chat_request sp up mt) (world st) = (Inr [], w) \<longrightarrow>
      call_groq env sp up mt st =
        ('''', emit (Print_groq_error IndexError)
                (emit (Chat_request (chat_request sp up mt)) (st\<lparr>world := w\<rparr>))))
   \<and> (chat_completions_create env (chat_request sp up mt) (world st) = (Inr (None # rest), w) \<longrightarrow>
      call_groq env sp up mt st =
        ('''', emit (Print_groq_error AttributeError)
                (emit (Chat_request (chat_request sp up mt)) (st\<lparr>world := w\<rparr>))))
   \<and> (chat_completions_create env (chat_request sp up mt) (world st) = (Inr (Some content # rest), w) \<longrightarrow>
      call_groq env sp up mt st =
        (strip content, emit (Chat_request (chat_request sp up mt)) (st\<lparr>world := w\<rparr>))
      \<and> takeWhile isspace (strip content) = []
      \<and> takeWhile isspace (rev (strip content)) = [])"
proof (intro conjI impI)
  assume "call_groq_try env sp up mt st = (Inl e, st1)"
  then show "call_groq env sp up mt st = ('''', emit (Print_groq_error e) st1)"
    by (simp add: call_groq_def)
next
  assume "chat_completions_create env (chat_request sp up mt) (world st) = (Inl e, w)"
  from call_groq_try_eq [OF this]
  show "call_groq env sp up mt st =
        ('''', emit (Print_groq_error e)
                (emit (Chat_request (chat_request sp up mt)) (st\<lparr>world := w\<rparr>)))"
    by (simp add: call_groq_def)
next
  assume "chat_completions_create env (chat_request sp up mt) (world st) = (Inr [], w)"
  from call_groq_try_eq [OF this]
  show "call_groq env sp up mt st =
        ('''', emit (Print_groq_error IndexError)
                (emit (Chat_request (chat_request sp up mt)) (st\<lparr>world := w\<rparr>)))"
    by (simp add: call_groq_def first_content_def)
next
  assume "chat_completions_create env (chat_request sp up mt) (world st) = (Inr (None # rest), w)"
  from call_groq_try_eq [OF this]
  show "call_groq env sp up mt st =
        ('''', emit (Print_groq_error AttributeError)
                (emit (Chat_request (chat_request sp up mt)) (st\<lparr>world := w\<rparr>)))"
    by (simp add: call_groq_def first_content_def)
next
  assume "chat_completions_create env (chat_request sp up mt) (world st) = (Inr (Some content # rest), w)"
  from call_groq_try_eq [OF this]
  show "call_groq env sp up mt st =
        (strip content, emit (Chat_request (chat_request sp up mt)) (st\<lparr>world := w\<rparr>))"
    by (simp add: call_groq_def first_content_def)
next
  show "takeWhile isspace (strip content) = []" by (rule strip_edges)
next
  show "takeWhile isspace (rev (strip content)) = []" by (rule strip_edges)
qed

theorem gateway_fail_soft_witness:
  "call_groq_try env_down CLAUSE_SYSTEM_PROMPT (Clause_user_prompt ''liability'' ''text'') 800 start
     = (Inl (External ''rate limit''),
        emit (Chat_request (chat_request CLAUSE_SYSTEM_PROMPT (Clause_user_prompt ''liability'' ''text'') 800)) start)
   \<and> fst (call_groq env_down CLAUSE_SYSTEM_PROMPT (Clause_user_prompt ''liability'' ''text'') 800 start) = ''''
   \<and> trace (snd (call_groq env_down CLAUSE_SYSTEM_PROMPT (Clause_user_prompt ''liability'' ''text'') 800 start))
       = [Chat_request (chat_request CLAUSE_SYSTEM_PROMPT (Clause_user_prompt ''liability'' ''text'') 800),
          Print_groq_error (External ''rate limit'')]
   \<and> chat_completions_create env_up
        (chat_request CLAUSE_SYSTEM_PROMPT (Clause_user_prompt ''liability'' ''text'') 800) (world start)
       = (Inr [Some '' 30 days notice. ''], ())
   \<and> fst (call_groq env_up CLAUSE_SYSTEM_PROMPT (Clause_user_prompt ''liability'' ''text'') 800 start)
       = ''30 days notice.''"
proof -
  let ?sp = CLAUSE_SYSTEM_PROMPT and ?up = "Clause_user_prompt ''liability'' ''text''"
  have a: "call_groq_try env_down ?sp ?up 800 start
     = (Inl (External ''rate limit''), emit (Chat_request (chat_request ?sp ?up 800)) start)"
    by (simp add: call_groq_try_def env_down_def start_def emit_def)
  have b: "chat_completions_create env_up (chat_request ?sp ?up 800) (world start)
       = (Inr [Some '' 30 days notice. ''], ())"
    by (simp add: env_up_def)
  have c: "strip '' 30 days notice. '' = ''30 days notice.''" by code_simp
  from gateway_fail_soft [where env = env_down and sp = ?sp and up = ?up and mt = 800
         and st = start and e = "External ''rate limit''"
         and ?st1.0 = "emit (Chat_request (chat_request ?sp ?up 800)) start"] a
       gateway_fail_soft [where env = env_up and sp = ?sp and up = ?up and mt = 800
         and st = start and rest = "[]" and w = "()" and content = "'' 30 days notice. ''"] b c
  show ?thesis by (simp add: emit_def start_def)
qed

subsection \<open>The summarizer\<close>

lemma call_groq_trace:
  "\<exists>evs. trace (snd (call_groq env sp up mt st)) = trace st @ Chat_request (chat_request sp up mt) # evs"
proof -
  obtain resp w where c: "chat_completions_create env (chat_request sp up mt) (world st) = (resp, w)"
    by (cases "chat_completions_create env (chat_request sp up mt) (world st)")
  from call_groq_try_eq [OF c] show ?thesis
    by (cases "case resp of Inl e \<Rightarrow> Inl e | Inr choices \<Rightarrow> first_content choices")
       (simp_all add: call_groq_def emit_def)
qed

text \<open>
  C8. The summarizer passes to the gateway the first 5000 characters of the text, inside
  the summary prompt, with a ceiling of 400 tokens, and returns what the gateway returns:
  the first event it adds to the trace is that request, and a text and its first 5000
  characters give the same result.
\<close>

theorem summarizer_truncates:
  "summarize_contract env full_text st =
     call_groq env SUMMARY_SYSTEM_PROMPT (Summary_user_prompt (take 5000 full_text)) 400 st
   \<and> (\<exists>evs. trace (snd (summarize_contract env full_text st)) =
         trace st @
         Chat_request
           \<lparr>model = ''llama-3.1-8b-instant'',
            messages = [(''system'', SUMMARY_SYSTEM_PROMPT),
                        (''user'', Summary_user_prompt (take 5000 full_text))],
            temperature = 0,
            max_tokens = 400\<rparr> # evs)
   \<and> prefix (take 5000 full_text) full_text
   \<and> length (take 5000 full_text) = min 5000 (length full_text)
   \<and> summarize_contract env (take 5000 full_text) st = summarize_contract env full_text st"
proof -
  have a: "summarize_contract env full_text st =
     call_groq env SUMMARY_SYSTEM_PROMPT (Summary_user_prompt (take 5000 full_text)) 400 st"
    by (simp add: summarize_contract_def Let_def)
  have b: "summarize_contract env (take 5000 full_text) st = summarize_contract env full_text st"
    by (simp add: summarize_contract_def Let_def)
  have c: "prefix (take 5000 full_text) full_text" by (rule take_is_prefix)
  have d: "length (take 5000 full_text) = min 5000 (length full_text)" by (simp add: min.commute)
  from call_groq_trace [of env SUMMARY_SYSTEM_PROMPT "Summary_user_prompt (take 5000 full_text)" 400 st]
  have e: "\<exists>evs. trace (snd (summarize_contract env full_text st)) =
         trace st @
         Chat_request
           \<lparr>model = ''llama-3.1-8b-instant'',
            messages = [(''system'', SUMMARY_SYSTEM_PROMPT),
                        (''user'', Summary_user_prompt (take 5000 full_text))],
            temperature = 0,
            max_tokens = 400\<rparr> # evs"
    unfolding a chat_request_def .
  from a b c d e show ?thesis by blast
qed

theorem summarizer_truncates_witness:
  "summarize_contract env_up ''Termination: 30 days notice.'' start
     = call_groq env_up SUMMARY_SYSTEM_PROMPT
         (Summary_user_prompt ''Termination: 30 days notice.'') 400 start
   \<and> fst (summarize_contract env_up ''Termination: 30 days notice.'' start) = ''30 days notice.''"
proof -
  have t: "take 5000 ''Termination: 30 days notice.'' = ''Termination: 30 days notice.''"
    by simp
  have c: "fst (call_groq env_up SUMMARY_SYSTEM_PROMPT
         (Summary_user_prompt ''Termination: 30 days notice.'') 400 start) = ''30 days notice.''"
    by code_simp
  from summarizer_truncates [of env_up "''Termination: 30 days notice.''" start]
  have "summarize_contract env_up ''Termination: 30 days notice.'' start
     = call_groq env_up SUMMARY_SYSTEM_PROMPT
         (Summary_user_prompt (take 5000 ''Termination: 30 days notice.'')) 400 start"
    by blast
  with t c show ?thesis by (simp only:)
qed

subsection \<open>One document\<close>

lemma process_contract_cases:
  "(\<exists>e st'. process_contract env path st = (Inl e, st')
        \<and> extract_text_from_pdf env path st = (Inl e, st'))
   \<or> (\<exists>raw st0 s t c l st'. extract_text_from_pdf env path st = (Inr raw, st0)
        \<and> process_contract env path st =
            (Inr [(''contract_id'', stem path), (''summary'', s), (''termination'', t),
                  (''confidentiality'', c), (''liability'', l)], st')
        \<and> (\<exists>st1. t = fst (extract_clause env (normalize_text raw) ''termination'' st1))
        \<and> (\<exists>st1. c = fst (extract_clause env (normalize_text raw) ''confidentiality'' st1))
        \<and> (\<exists>st1. l = fst (extract_clause env (normalize_text raw) ''liability'' st1))
        \<and> (\<exists>st1. s = fst (summarize_contract env (normalize_text raw) st1)))"
proof (cases "extract_text_from_pdf env path st")
  case (Pair res st0)
  show ?thesis
  proof (cases res)
    case (Inl e)
    with Pair show ?thesis by (simp add: process_contract_def)
  next
    case (Inr raw)
    obtain t st1 where t: "extract_clause env (normalize_text raw) ''termination'' st0 = (t, st1)"
      by (cases "extract_clause env (normalize_text raw) ''termination'' st0")
    obtain c st2 where c: "extract_clause env (normalize_text raw) ''confidentiality'' st1 = (c, st2)"
      by (cases "extract_clause env (normalize_text raw) ''confidentiality'' st1")
    obtain l st3 where l: "extract_clause env (normalize_text raw) ''liability'' st2 = (l, st3)"
      by (cases "extract_clause env (normalize_text raw) ''liability'' st2")
    obtain s st4 where s: "summarize_contract env (normalize_text raw) st3 = (s, st4)"
      by (cases "summarize_contract env (normalize_text raw) st3")
    have "process_contract env path st =
            (Inr [(''contract_id'', stem path), (''summary'', s), (''termination'', t),
                  (''confidentiality'', c), (''liability'', l)], st4)"
      using Pair Inr t c l s by (simp add: process_contract_def Let_def)
    moreover have "t = fst (extract_clause env (normalize_text raw) ''termination'' st0)"
      using t by simp
    moreover have "c = fst (extract_clause env (normalize_text raw) ''confidentiality'' st1)"
      using c by simp
    moreover have "l = fst (extract_clause env (normalize_text raw) ''liability'' st2)"
      using l by simp
    moreover have "s = fst (summarize_contract env (normalize_text raw) st3)"
      using s by simp
    ultimately show ?thesis using Pair Inr by blast
  qed
qed

lemma process_contract_Inr:
  assumes "process_contract env path st = (Inr r, st')"
  shows "\<exists>s t c l. r = [(''contract_id'', stem path), (''summary'', s), (''termination'', t),
                  (''confidentiality'', c), (''liability'', l)]"
  using process_contract_cases [of env path st] assms by auto

lemma process_contract_fails_iff:
  "fst (process_contract env path st) = Inl e \<longleftrightarrow> fst (extract_text_from_pdf env path st) = Inl e"
  using process_contract_cases [of env path st] by auto

lemma process_contract_down:
  assumes down: "\<forall>sp up mt s. isl (fst (call_groq_try env sp up mt s))"
    and r: "process_contract env path st = (Inr r, st')"
  shows "r = [(''contract_id'', stem path), (''summary'', ''''), (''termination'', ''''),
              (''confidentiality'', ''''), (''liability'', '''')]"
proof -
  have c: "fst (extract_clause env ft ty s0) = ''''" for ft ty s0
    by (simp add: extract_clause_def Let_def call_groq_down [OF down])
  have s: "fst (summarize_contract env ft s0) = ''''" for ft s0
    by (simp add: summarize_contract_def Let_def call_groq_down [OF down])
  from process_contract_cases [of env path st] r show ?thesis
    by (auto simp: c s)
qed

subsection \<open>The batch\<close>

lemma main_loop_outcomes:
  "fst (main_loop env pdfs rows st) = rows @ [r. Inr r \<leftarrow> outcomes env pdfs st]"
proof (induction pdfs arbitrary: rows st)
  case Nil
  then show ?case by simp
next
  case (Cons pdf pdfs)
  obtain res st1 where p: "process_contract env pdf st = (res, st1)"
    by (cases "process_contract env pdf st")
  show ?case
  proof (cases res)
    case (Inl e)
    with p Cons.IH show ?thesis by simp
  next
    case (Inr r)
    with p Cons.IH show ?thesis by simp
  qed
qed

lemma length_outcomes: "length (outcomes env pdfs st) = length pdfs"
proof (induction pdfs arbitrary: st)
  case Nil
  then show ?case by simp
next
  case (Cons pdf pdfs)
  then show ?case
    by (cases "process_contract env pdf st") (simp split: sum.splits)
qed

lemma outcomes_ids:
  "map (\<lambda>r. map_of r ''contract_id'') [r. Inr r \<leftarrow> outcomes env pdfs st]
     = [Some (stem p). (p, Inr r) \<leftarrow> zip pdfs (outcomes env pdfs st)]"
proof (induction pdfs arbitrary: st)
  case Nil
  then show ?case by simp
next
  case (Cons pdf pdfs)
  obtain res st1 where p: "process_contract env pdf st = (res, st1)"
    by (cases "process_contract env pdf st")
  show ?case
  proof (cases res)
    case (Inl e)
    with p Cons.IH show ?thesis by simp
  next
    case (Inr r)
    with p process_contract_Inr [of env pdf st r st1]
    have "map_of r ''contract_id'' = Some (stem pdf)" by auto
    with Inr p Cons.IH show ?thesis by simp
  qed
qed

lemma length_successes: "length [r. Inr r \<leftarrow> outs] \<le> length (outs :: (exn + row) list)"
  by (induction outs) (auto split: sum.splits)

lemma main_trace:
  "main env input_dir out_json out_csv st = st' \<Longrightarrow>
   rows = fst (main_loop env (sort_key name (glob_pdf env input_dir (world st))) [] st) \<Longrightarrow>
   Json_dump out_json rows \<in> set (trace st') \<and> last (trace st') = Print_done (length rows) out_json"
  by (auto simp: main_def Let_def emit_def split: prod.splits option.splits)

lemma outcomes_down:
  assumes down: "\<forall>sp up mt s. isl (fst (call_groq_try env sp up mt s))"
  shows "\<forall>r \<in> set [r. Inr r \<leftarrow> outcomes env pdfs st].
           \<exists>i. r = [(''contract_id'', i), (''summary'', ''''), (''termination'', ''''),
                    (''confidentiality'', ''''), (''liability'', '''')]"
proof (induction pdfs arbitrary: st)
  case Nil
  then show ?case by simp
next
  case (Cons pdf pdfs)
  obtain res st1 where p: "process_contract env pdf st = (res, st1)"
    by (cases "process_contract env pdf st")
  show ?case
  proof (cases res)
    case (Inl e)
    with p Cons.IH show ?thesis by simp
  next
    case (Inr r)
    with p process_contract_down [OF down, of pdf st r st1] Cons.IH show ?thesis by simp
  qed
qed

lemma ids_of_readable:
  assumes "\<forall>p \<in> set pdfs. \<forall>s. isl (fst (extract_text_from_pdf env p s)) = bad p"
  shows "map (\<lambda>r. map_of r ''contract_id'') [r. Inr r \<leftarrow> outcomes env pdfs st]
     = map (\<lambda>p. Some (stem p)) (filter (\<lambda>p. \<not> bad p) pdfs)"
  using assms
proof (induction pdfs arbitrary: st)
  case Nil
  then show ?case by simp
next
  case (Cons pdf pdfs)
  from Cons.prems have rest: "\<forall>p \<in> set pdfs. \<forall>s. isl (fst (extract_text_from_pdf env p s)) = bad p"
    and this_one: "isl (fst (extract_text_from_pdf env pdf st)) = bad pdf"
    by simp_all
  obtain res st1 where p: "process_contract env pdf st = (res, st1)"
    by (cases "process_contract env pdf st")
  show ?case
  proof (cases res)
    case (Inl e)
    with p have "fst (process_contract env pdf st) = Inl e" by simp
    then have "fst (extract_text_from_pdf env pdf st) = Inl e"
      by (simp add: process_contract_fails_iff)
    with this_one have "bad pdf" by simp
    with Inl p Cons.IH [OF rest] show ?thesis by simp
  next
    case (Inr r)
    have "\<not> bad pdf"
    proof
      assume "bad pdf"
      with this_one obtain e where "fst (extract_text_from_pdf env pdf st) = Inl e"
        by (cases "fst (extract_text_from_pdf env pdf st)") simp_all
      then have "fst (process_contract env pdf st) = Inl e"
        by (simp add: process_contract_fails_iff)
      with p Inr show False by simp
    qed
    moreover from Inr p process_contract_Inr [of env pdf st r st1]
    have "map_of r ''contract_id'' = Some (stem pdf)" by auto
    ultimately show ?thesis using Inr p Cons.IH [OF rest] by simp
  qed
qed

text \<open>
  C4. The batch isolates the failure of a document. Every document of the batch has an
  outcome, whatever happened to the documents before it; the rows of the batch are the
  records of the documents that succeeded, one each and in the order of the batch, so
  there are at most as many rows as documents; a document fails exactly when the
  extraction of its text raises, and then it contributes no row. When a fixed set of
  documents is unreadable, the rows carry the identifiers of the readable ones, in
  order. \<^term>\<open>main\<close> runs the batch on the paths sorted by file name and hands these
  rows to the JSON writer.
\<close>

theorem batch_isolates_failures:
  "fst (main_loop env pdfs [] st) = [r. Inr r \<leftarrow> outcomes env pdfs st]
   \<and> length (outcomes env pdfs st) = length pdfs
   \<and> length (fst (main_loop env pdfs [] st)) \<le> length pdfs
   \<and> map (\<lambda>r. map_of r ''contract_id'') (fst (main_loop env pdfs [] st))
       = [Some (stem p). (p, Inr r) \<leftarrow> zip pdfs (outcomes env pdfs st)]
   \<and> (fst (process_contract env pdf st) = Inl e
        \<longleftrightarrow> fst (extract_text_from_pdf env pdf st) = Inl e)
   \<and> ((\<forall>p \<in> set pdfs. \<forall>s. isl (fst (extract_text_from_pdf env p s)) = bad p) \<longrightarrow>
        map (\<lambda>r. map_of r ''contract_id'') (fst (main_loop env pdfs [] st))
          = map (\<lambda>p. Some (stem p)) (filter (\<lambda>p. \<not> bad p) pdfs)
        \<and> length (fst (main_loop env pdfs [] st)) = length (filter (\<lambda>p. \<not> bad p) pdfs))
   \<and> Json_dump out_json
        [r. Inr r \<leftarrow> outcomes env (sort_key name (glob_pdf env input_dir (world st))) st]
       \<in> set (trace (main env input_dir out_json out_csv st))"
proof -
  have a: "fst (main_loop env ps [] st) = [r. Inr r \<leftarrow> outcomes env ps st]" for ps
    using main_loop_outcomes [of env ps "[]" st] by simp
  have "length (fst (main_loop env pdfs [] st)) \<le> length (outcomes env pdfs st)"
    unfolding a by (rule length_successes)
  then have b: "length (fst (main_loop env pdfs [] st)) \<le> length pdfs"
    by (simp add: length_outcomes)
  have c: "map (\<lambda>r. map_of r ''contract_id'') (fst (main_loop env pdfs [] st))
       = [Some (stem p). (p, Inr r) \<leftarrow> zip pdfs (outcomes env pdfs st)]"
    unfolding a by (rule outcomes_ids)
  have d: "Json_dump out_json
        [r. Inr r \<leftarrow> outcomes env (sort_key name (glob_pdf env input_dir (world st))) st]
       \<in> set (trace (main env input_dir out_json out_csv st))"
    using main_trace [where env = env and input_dir = input_dir and out_json = out_json
        and out_csv = out_csv and st = st, OF refl refl] unfolding a by simp
  have f: "map (\<lambda>r. map_of r ''contract_id'') (fst (main_loop env pdfs [] st))
          = map (\<lambda>p. Some (stem p)) (filter (\<lambda>p. \<not> bad p) pdfs)
        \<and> length (fst (main_loop env pdfs [] st)) = length (filter (\<lambda>p. \<not> bad p) pdfs)"
    if h: "\<forall>p \<in> set pdfs. \<forall>s. isl (fst (extract_text_from_pdf env p s)) = bad p"
  proof -
    have m: "map (\<lambda>r. map_of r ''contract_id'') (fst (main_loop env pdfs [] st))
          = map (\<lambda>p. Some (stem p)) (filter (\<lambda>p. \<not> bad p) pdfs)"
      unfolding a using h by (rule ids_of_readable)
    then have "length (map (\<lambda>r. map_of r ''contract_id'') (fst (main_loop env pdfs [] st)))
          = length (map (\<lambda>p. Some (stem p)) (filter (\<lambda>p. \<not> bad p) pdfs))"
      by (rule arg_cong)
    then have "length (fst (main_loop env pdfs [] st)) = length (filter (\<lambda>p. \<not> bad p) pdfs)"
      by (simp only: length_map)
    with m show ?thesis by blast
  qed
  from a [of pdfs] b c d f length_outcomes [of env pdfs st]
    process_contract_fails_iff [of env pdf st e]
  show ?thesis by blast
qed

theorem batch_isolates_failures_witness:
  "map name (sort_key name three_pdfs) = [''a.pdf'', ''b.pdf'', ''c.pdf'']
   \<and> map isl (outcomes env_up (sort_key name three_pdfs) start) = [False, True, False]
   \<and> fst (process_contract env_up \<lparr>name = ''b.pdf'', stem = ''b''\<rparr> start)
       = Inl (External ''No /Root object'')
   \<and> fst (extract_text_from_pdf env_up \<lparr>name = ''b.pdf'', stem = ''b''\<rparr> start)
       = Inl (External ''No /Root object'')
   \<and> length (fst (main_loop env_up (sort_key name three_pdfs) [] start)) = 2
   \<and> map (\<lambda>r. map_of r ''contract_id'') (fst (main_loop env_up (sort_key name three_pdfs) [] start))
       = [Some ''a'', Some ''c'']"
proof -
  let ?pdfs = "sort_key name three_pdfs"
  let ?a = "\<lparr>name = ''a.pdf'', stem = ''a''\<rparr>" and ?b = "\<lparr>name = ''b.pdf'', stem = ''b''\<rparr>"
    and ?c = "\<lparr>name = ''c.pdf'', stem = ''c''\<rparr>"
  have s: "?pdfs = [?a, ?b, ?c]"
    by code_simp
  have h: "\<forall>p \<in> set [?a, ?b, ?c]. \<forall>s.
      isl (fst (extract_text_from_pdf env_up p s)) = (name p = ''b.pdf'')"
    by (simp add: extract_text_from_pdf_def env_up_def read_pdf_def)
  have o: "map isl (outcomes env_up [?a, ?b, ?c] start) = [False, True, False]"
    by code_simp
  have x: "fst (extract_text_from_pdf env_up ?b start) = Inl (External ''No /Root object'')"
    by code_simp
  note t = batch_isolates_failures [of env_up "[?a, ?b, ?c]" start ?b "External ''No /Root object''"
      "\<lambda>p. name p = ''b.pdf''"]
  from t x have t3: "fst (process_contract env_up ?b start) = Inl (External ''No /Root object'')"
    by blast
  from t h have t4: "length (fst (main_loop env_up [?a, ?b, ?c] [] start))
      = length (filter (\<lambda>p. \<not> name p = ''b.pdf'') [?a, ?b, ?c])"
    by blast
  from t h have t5: "map (\<lambda>r. map_of r ''contract_id'') (fst (main_loop env_up [?a, ?b, ?c] [] start))
      = map (\<lambda>p. Some (stem p)) (filter (\<lambda>p. \<not> name p = ''b.pdf'') [?a, ?b, ?c])"
    by blast
  have t6: "length (fst (main_loop env_up [?a, ?b, ?c] [] start)) = 2"
    unfolding t4 by simp
  have t7: "map (\<lambda>r. map_of r ''contract_id'') (fst (main_loop env_up [?a, ?b, ?c] [] start))
       = [Some ''a'', Some ''c'']"
    unfolding t5 by simp
  have t8: "map name [?a, ?b, ?c] = [''a.pdf'', ''b.pdf'', ''c.pdf'']" by simp
  from o x t3 t6 t7 t8 show ?thesis unfolding s by blast
qed

text \<open>
  C6. When every call of the gateway fails, every row of the batch still has the five
  keys \<open>contract_id\<close>, \<open>summary\<close>, \<open>termination\<close>, \<open>confidentiality\<close> and
  \<open>liability\<close> in this order, with the empty string for the summary and for the three
  clauses, and \<^term>\<open>main\<close> still hands the rows to the JSON writer and ends with its
  closing message.
\<close>

theorem blank_fields_when_gateway_down:
  assumes "\<forall>sp up mt s. isl (fst (call_groq_try env sp up mt s))"
  shows "(\<forall>r \<in> set (fst (main_loop env pdfs [] st)).
            map fst r = [''contract_id'', ''summary'', ''termination'', ''confidentiality'', ''liability'']
            \<and> map_of r ''summary'' = Some '''' \<and> map_of r ''termination'' = Some ''''
            \<and> map_of r ''confidentiality'' = Some '''' \<and> map_of r ''liability'' = Some ''''
            \<and> map_of r ''contract_id'' \<noteq> None)
       \<and> Json_dump out_json
            (fst (main_loop env (sort_key name (glob_pdf env input_dir (world st))) [] st))
           \<in> set (trace (main env input_dir out_json out_csv st))
       \<and> last (trace (main env input_dir out_json out_csv st))
           = Print_done
               (length (fst (main_loop env (sort_key name (glob_pdf env input_dir (world st))) [] st)))
               out_json"
proof -
  have rows: "\<forall>r \<in> set (fst (main_loop env pdfs [] st)).
            map fst r = [''contract_id'', ''summary'', ''termination'', ''confidentiality'', ''liability'']
            \<and> map_of r ''summary'' = Some '''' \<and> map_of r ''termination'' = Some ''''
            \<and> map_of r ''confidentiality'' = Some '''' \<and> map_of r ''liability'' = Some ''''
            \<and> map_of r ''contract_id'' \<noteq> None"
  proof
    fix r
    assume "r \<in> set (fst (main_loop env pdfs [] st))"
    then have "r \<in> set [r. Inr r \<leftarrow> outcomes env pdfs st]"
      using main_loop_outcomes [of env pdfs "[]" st] by simp
    with outcomes_down [OF assms, of pdfs st]
    obtain i where "r = [(''contract_id'', i), (''summary'', ''''), (''termination'', ''''),
                    (''confidentiality'', ''''), (''liability'', '''')]"
      by blast
    then show "map fst r = [''contract_id'', ''summary'', ''termination'', ''confidentiality'', ''liability'']
            \<and> map_of r ''summary'' = Some '''' \<and> map_of r ''termination'' = Some ''''
            \<and> map_of r ''confidentiality'' = Some '''' \<and> map_of r ''liability'' = Some ''''
            \<and> map_of r ''contract_id'' \<noteq> None"
      by simp
  qed
  from rows
    main_trace [where env = env and input_dir = input_dir and out_json = out_json
        and out_csv = out_csv and st = st, OF refl refl]
  show ?thesis by blast
qed

theorem blank_fields_when_gateway_down_witness:
  "(\<forall>sp up mt s. isl (fst (call_groq_try env_down sp up mt s)))
   \<and> fst (main_loop env_down (sort_key name (glob_pdf env_down ''contracts'' (world start))) [] start)
       = [[(''contract_id'', ''a''), (''summary'', ''''), (''termination'', ''''),
           (''confidentiality'', ''''), (''liability'', '''')],
          [(''contract_id'', ''c''), (''summary'', ''''), (''termination'', ''''),
           (''confidentiality'', ''''), (''liability'', '''')]]
   \<and> last (trace (main env_down ''contracts'' ''out.json'' None start)) = Print_done 2 ''out.json''"
proof -
  let ?pdfs = "sort_key name (glob_pdf env_down ''contracts'' (world start))"
  have d: "\<forall>sp up mt s. isl (fst (call_groq_try env_down sp up mt s))"
    by (simp add: call_groq_try_def env_down_def)
  have r: "fst (main_loop env_down ?pdfs [] start)
       = [[(''contract_id'', ''a''), (''summary'', ''''), (''termination'', ''''),
           (''confidentiality'', ''''), (''liability'', '''')],
          [(''contract_id'', ''c''), (''summary'', ''''), (''termination'', ''''),
           (''confidentiality'', ''''), (''liability'', '''')]]"
    by code_simp
  from blank_fields_when_gateway_down [OF d, of ?pdfs start "''out.json''" "''contracts''" None]
  have "last (trace (main env_down ''contracts'' ''out.json'' None start))
      = Print_done (length (fst (main_loop env_down ?pdfs [] start))) ''out.json''"
    by blast
  then have "last (trace (main env_down ''contracts'' ''out.json'' None start))
      = Print_done 2 ''out.json''"
    unfolding r by simp
  with d r show ?thesis by blast
qed

end
